theory Spec2Isabelle
  imports Complex_Main "HOL-Library.Word"
begin

section \<open>Vector accumulators\<close>

text \<open>
  A \<open>float4\<close> of the encoder is four floats \<open>r, g, b, a\<close> with component-wise
  \<open>+\<close>, \<open>-\<close> and \<open>*\<close>. The development is in exact arithmetic: a float is a
  \<open>real\<close>, and \<open>powf\<close> is the real power \<open>powr\<close>.
\<close>

datatype float4 = Float4 (f4r: real) (f4g: real) (f4b: real) (f4a: real)

instantiation float4 :: comm_ring_1
begin

definition zero_float4 :: float4 where
  "zero_float4 = Float4 0 0 0 0"

definition one_float4 :: float4 where
  "one_float4 = Float4 1 1 1 1"

definition plus_float4 :: "float4 \<Rightarrow> float4 \<Rightarrow> float4" where
  "plus_float4 p q = Float4 (f4r p + f4r q) (f4g p + f4g q) (f4b p + f4b q) (f4a p + f4a q)"

definition minus_float4 :: "float4 \<Rightarrow> float4 \<Rightarrow> float4" where
  "minus_float4 p q = Float4 (f4r p - f4r q) (f4g p - f4g q) (f4b p - f4b q) (f4a p - f4a q)"

definition uminus_float4 :: "float4 \<Rightarrow> float4" where
  "uminus_float4 p = Float4 (- f4r p) (- f4g p) (- f4b p) (- f4a p)"

definition times_float4 :: "float4 \<Rightarrow> float4 \<Rightarrow> float4" where
  "times_float4 p q = Float4 (f4r p * f4r q) (f4g p * f4g q) (f4b p * f4b q) (f4a p * f4a q)"

instance
  by standard
    (simp_all add: zero_float4_def one_float4_def plus_float4_def minus_float4_def
      uminus_float4_def times_float4_def algebra_simps)

end

text \<open>\<open>float4(s)\<close>: the scalar \<open>s\<close> in every lane; \<open>v * s\<close> and \<open>s * v\<close> of the
  source multiply every lane by \<open>s\<close>.\<close>

definition splat :: "real \<Rightarrow> float4" where
  "splat s = Float4 s s s s"

section \<open>The Brent-Kung prefix sum\<close>

text \<open>
  Memory is a store from addresses to values; a pointer is an address (\<open>int\<close>),
  a \<open>size_t\<close> is a \<open>nat\<close>. \<open>bk_inner\<close> is the inner \<open>while (iters)\<close> loop
  shared by both trees: \<open>*da = *da + da[ofs]; da += ofs_stride; iters--\<close>.
\<close>

fun bk_inner :: "(int \<Rightarrow> 'a::plus) \<Rightarrow> int \<Rightarrow> int \<Rightarrow> nat \<Rightarrow> nat \<Rightarrow> (int \<Rightarrow> 'a)" where
  "bk_inner m da ofs ofs_stride 0 = m"
| "bk_inner m da ofs ofs_stride (Suc iters) =
     bk_inner (m(da := m da + m (da + ofs))) (da + int ofs_stride) ofs ofs_stride iters"

text \<open>
  The reduction-tree \<open>do ... while (lc_stride <= items)\<close> loop. It returns the memory
  together with \<open>lc_stride\<close> and \<open>log2_stride\<close>, which the expansion loop goes on
  from. The loop is entered with \<open>lc_stride = 2\<close> and only doubles it; the first
  equation (\<open>lc_stride = 0\<close>, never reached) makes the recursion total.
\<close>

function bk_reduce ::
  "(int \<Rightarrow> 'a::plus) \<Rightarrow> int \<Rightarrow> nat \<Rightarrow> nat \<Rightarrow> nat \<Rightarrow> nat \<Rightarrow> (int \<Rightarrow> 'a) \<times> nat \<times> nat" where
  "bk_reduce m d items stride 0 log2_stride = (m, 0, log2_stride)"
| "bk_reduce m d items stride (Suc lc) log2_stride =
     (let lc_stride = Suc lc;
          step = drop_bit 1 lc_stride;
          start = lc_stride - 1;
          iters = drop_bit log2_stride items;
          da = d + int (start * stride);
          ofs = - int (step * stride);
          ofs_stride = push_bit log2_stride stride;
          m' = bk_inner m da ofs ofs_stride iters;
          log2_stride' = log2_stride + 1;
          lc_stride' = push_bit 1 lc_stride
      in if lc_stride' \<le> items
         then bk_reduce m' d items stride lc_stride' log2_stride'
         else (m', lc_stride', log2_stride'))"
  by pat_completeness auto
termination
  by (relation "measure (\<lambda>(m, d, items, stride, lc, l). Suc items - lc)")
    (auto simp: push_bit_eq_mult)

text \<open>The expansion-tree \<open>do ... while (lc_stride > 2)\<close> loop.\<close>

function bk_expand ::
  "(int \<Rightarrow> 'a::plus) \<Rightarrow> int \<Rightarrow> nat \<Rightarrow> nat \<Rightarrow> nat \<Rightarrow> nat \<Rightarrow> (int \<Rightarrow> 'a)" where
  "bk_expand m d items stride lc_stride log2_stride =
     (let log2_stride' = log2_stride - 1;
          lc_stride' = drop_bit 1 lc_stride;
          step = drop_bit 1 lc_stride';
          start = step + lc_stride' - 1;
          iters = drop_bit log2_stride' (items - step);
          da = d + int (start * stride);
          ofs = - int (step * stride);
          ofs_stride = push_bit log2_stride' stride;
          m' = bk_inner m da ofs ofs_stride iters
      in if lc_stride' > 2
         then bk_expand m' d items stride lc_stride' log2_stride'
         else m')"
  by pat_completeness auto
termination
  by (relation "measure (\<lambda>(m, d, items, stride, lc, l). lc)")
    (auto simp: drop_bit_eq_div)

definition brent_kung_prefix_sum ::
  "(int \<Rightarrow> 'a::plus) \<Rightarrow> int \<Rightarrow> nat \<Rightarrow> nat \<Rightarrow> (int \<Rightarrow> 'a)" where
  "brent_kung_prefix_sum m d items stride =
     (if items < 2 then m
      else case bk_reduce m d items stride 2 1 of
             (m', lc_stride, log2_stride) \<Rightarrow> bk_expand m' d items stride lc_stride log2_stride)"

section \<open>Images, swizzles and the arguments of one tile\<close>

text \<open>
  A swizzle selector indexes the six-element array \<open>data\<close> of the sampling loops:
  entries 0 to 3 are the texel's own r, g, b, a, entry 4 (\<open>ASTCENC_SWZ_0\<close>) is the
  constant zero and entry 5 (\<open>ASTCENC_SWZ_1\<close>) the constant one.
\<close>

datatype astcenc_swz =
  ASTCENC_SWZ_R | ASTCENC_SWZ_G | ASTCENC_SWZ_B | ASTCENC_SWZ_A | ASTCENC_SWZ_0 | ASTCENC_SWZ_1

record astcenc_swizzle =
  swz_r :: astcenc_swz
  swz_g :: astcenc_swz
  swz_b :: astcenc_swz
  swz_a :: astcenc_swz

fun swz_data :: "'v \<Rightarrow> 'v \<Rightarrow> 'v \<Rightarrow> 'v \<Rightarrow> 'v \<Rightarrow> 'v \<Rightarrow> astcenc_swz \<Rightarrow> 'v" where
  "swz_data d0 d1 d2 d3 d4 d5 ASTCENC_SWZ_R = d0"
| "swz_data d0 d1 d2 d3 d4 d5 ASTCENC_SWZ_G = d1"
| "swz_data d0 d1 d2 d3 d4 d5 ASTCENC_SWZ_B = d2"
| "swz_data d0 d1 d2 d3 d4 d5 ASTCENC_SWZ_A = d3"
| "swz_data d0 d1 d2 d3 d4 d5 ASTCENC_SWZ_0 = d4"
| "swz_data d0 d1 d2 d3 d4 d5 ASTCENC_SWZ_1 = d5"

text \<open>
  The image: its dimensions and its raw buffer, tagged with the data type. With
  \<open>USE_2DARRAY\<close> set, the 8-bit buffer is one flat array of bytes and the 32-bit
  buffer one flat array of \<open>float4\<close>; the 16-bit buffer is still an array of slices
  of rows (\<open>uint16_t***\<close>).
\<close>

datatype image_data =
  ASTCENC_TYPE_U8 "8 word list"
| ASTCENC_TYPE_F16 "16 word list list list"
| ASTCENC_TYPE_F32 "float4 list"

record astcenc_image =
  dim_x :: nat
  dim_y :: nat
  dim_z :: nat
  data :: image_data

text \<open>
  \<open>pixel_region_variance_args\<close>; \<open>size\<close> and \<open>offset\<close> are written out per axis
  (\<open>size.r, size.g, size.b\<close> are \<open>size_x, size_y, size_z\<close>). The work memory is
  the pair of its two planes \<open>varbuf1 = work_memory\<close> and
  \<open>varbuf2 = work_memory + sizeprod\<close>: they are disjoint halves of one allocation,
  and every access \<open>VARBUF1(z, y, x)\<close>, \<open>VARBUF2(z, y, x)\<close> stays in its own half.
\<close>

type_synonym planes = "(int \<Rightarrow> float4) \<times> (int \<Rightarrow> float4)"

record pixel_region_variance_args =
  img :: astcenc_image
  rgb_power :: real
  alpha_power :: real
  swz :: astcenc_swizzle
  have_z :: bool
  avg_var_kernel_radius :: int
  alpha_kernel_radius :: int
  size_x :: int
  size_y :: int
  size_z :: int
  offset_x :: int
  offset_y :: int
  offset_z :: int
  work_memory :: planes

text \<open>The three output arrays of the context, indexed by \<open>out_index\<close>.\<close>

record astcenc_context =
  input_alpha_averages :: "int \<Rightarrow> real"
  input_averages :: "int \<Rightarrow> float4"
  input_variances :: "int \<Rightarrow> float4"

text \<open>
  Modelled from the spec: \<open>astc::clamp\<close> is declared outside the sources at hand;
  it clamps a value to \<open>[mn, mx]\<close> (clamp-to-edge) and returns the clamped value,
  as the sampling loops use it (\<open>z_src = astc::clamp(z_src, 0, ...)\<close>).
\<close>

definition astc_clamp :: "int \<Rightarrow> int \<Rightarrow> int \<Rightarrow> int" where
  "astc_clamp v mn mx = max mn (min v mx)"

subsection \<open>The locals of \<open>compute_pixel_region_variance\<close>\<close>

definition kernel_radius :: "pixel_region_variance_args \<Rightarrow> int" where
  "kernel_radius arg = max (avg_var_kernel_radius arg) (alpha_kernel_radius arg)"

definition kerneldim :: "pixel_region_variance_args \<Rightarrow> int" where
  "kerneldim arg = 2 * kernel_radius arg + 1"

definition kernel_radius_xy :: "pixel_region_variance_args \<Rightarrow> int" where
  "kernel_radius_xy arg = kernel_radius arg"

definition kernel_radius_z :: "pixel_region_variance_args \<Rightarrow> int" where
  "kernel_radius_z arg = (if have_z arg then kernel_radius arg else 0)"

definition padsize_x :: "pixel_region_variance_args \<Rightarrow> int" where
  "padsize_x arg = size_x arg + kerneldim arg"

definition padsize_y :: "pixel_region_variance_args \<Rightarrow> int" where
  "padsize_y arg = size_y arg + kerneldim arg"

definition padsize_z :: "pixel_region_variance_args \<Rightarrow> int" where
  "padsize_z arg = size_z arg + (if have_z arg then kerneldim arg else 0)"

definition sizeprod :: "pixel_region_variance_args \<Rightarrow> int" where
  "sizeprod arg = padsize_x arg * padsize_y arg * padsize_z arg"

definition zd_start :: "pixel_region_variance_args \<Rightarrow> int" where
  "zd_start arg = (if have_z arg then 1 else 0)"

definition are_powers_1 :: "pixel_region_variance_args \<Rightarrow> bool" where
  "are_powers_1 arg = (rgb_power arg = 1 \<and> alpha_power arg = 1)"

definition yst :: "pixel_region_variance_args \<Rightarrow> int" where
  "yst arg = padsize_x arg"

definition zst :: "pixel_region_variance_args \<Rightarrow> int" where
  "zst arg = padsize_x arg * padsize_y arg"

definition ydt :: "pixel_region_variance_args \<Rightarrow> int" where
  "ydt arg = int (dim_x (img arg))"

definition zdt :: "pixel_region_variance_args \<Rightarrow> int" where
  "zdt arg = int (dim_x (img arg)) * int (dim_y (img arg))"

text \<open>The index expression of the macros \<open>VARBUF1(z, y, x)\<close> and \<open>VARBUF2(z, y, x)\<close>.\<close>

definition VARBUF :: "pixel_region_variance_args \<Rightarrow> int \<Rightarrow> int \<Rightarrow> int \<Rightarrow> int" where
  "VARBUF arg z y x = z * zst arg + y * yst arg + x"

definition needs_swz :: "astcenc_swizzle \<Rightarrow> bool" where
  "needs_swz sw =
     (swz_r sw \<noteq> ASTCENC_SWZ_R \<or> swz_g sw \<noteq> ASTCENC_SWZ_G \<or>
      swz_b sw \<noteq> ASTCENC_SWZ_B \<or> swz_a sw \<noteq> ASTCENC_SWZ_A)"

subsection \<open>Sampling one texel\<close>

text \<open>
  The block \<open>if (!are_powers_1) { d.r = powf(MAX(d.r, 1e-6f), rgb_power); ... }\<close>,
  the same in the three sampling loops.
\<close>

definition power_curve :: "pixel_region_variance_args \<Rightarrow> float4 \<Rightarrow> float4" where
  "power_curve arg d =
     (if \<not> are_powers_1 arg
      then Float4 (max (f4r d) (1 / 1000000) powr rgb_power arg)
                  (max (f4g d) (1 / 1000000) powr rgb_power arg)
                  (max (f4b d) (1 / 1000000) powr rgb_power arg)
                  (max (f4a d) (1 / 1000000) powr alpha_power arg)
      else d)"

text \<open>
  The body of the innermost loop for 8-bit data, up to the value \<open>d\<close> that goes
  into the power block. The flat buffer is addressed by
  \<open>px = (y_src * dim_x + x_src) * 4\<close>; \<open>z_src\<close> is computed by the loop and not used.
\<close>

definition fetch_u8 ::
  "pixel_region_variance_args \<Rightarrow> 8 word list \<Rightarrow> int \<Rightarrow> int \<Rightarrow> int \<Rightarrow> float4 option" where
  "fetch_u8 arg data8 z_src y_src x_src =
     (let px = (y_src * int (dim_x (img arg)) + x_src) * 4;
          r = data8 ! nat (px + 0);
          g = data8 ! nat (px + 1);
          b = data8 ! nat (px + 2);
          a = data8 ! nat (px + 3);
          sw = swz arg;
          r' = (if needs_swz sw then swz_data r g b a 0 255 (swz_r sw) else r);
          g' = (if needs_swz sw then swz_data r g b a 0 255 (swz_g sw) else g);
          b' = (if needs_swz sw then swz_data r g b a 0 255 (swz_b sw) else b);
          a' = (if needs_swz sw then swz_data r g b a 0 255 (swz_a sw) else a);
          d = Float4 (real (unat r')) (real (unat g')) (real (unat b')) (real (unat a'))
      in Some (d * splat (1 / 255)))"

text \<open>
  16-bit data: \<open>data16[z_src][y_src][4 * x_src + c]\<close>, swizzled as raw half floats
  (\<open>0x3C00\<close> is one) and then decoded. \<open>sf16_to_float\<close> is declared outside the
  sources at hand and is a parameter.
\<close>

definition fetch_f16 ::
  "(16 word \<Rightarrow> real) \<Rightarrow> pixel_region_variance_args \<Rightarrow> 16 word list list list \<Rightarrow>
     int \<Rightarrow> int \<Rightarrow> int \<Rightarrow> float4 option" where
  "fetch_f16 sf16_to_float arg data16 z_src y_src x_src =
     (let row = data16 ! nat z_src ! nat y_src;
          d0 = row ! nat (4 * x_src);
          d1 = row ! nat (4 * x_src + 1);
          d2 = row ! nat (4 * x_src + 2);
          d3 = row ! nat (4 * x_src + 3);
          sw = swz arg;
          r = swz_data d0 d1 d2 d3 0 0x3C00 (swz_r sw);
          g = swz_data d0 d1 d2 d3 0 0x3C00 (swz_g sw);
          b = swz_data d0 d1 d2 d3 0 0x3C00 (swz_b sw);
          a = swz_data d0 d1 d2 d3 0 0x3C00 (swz_a sw)
      in Some (Float4 (sf16_to_float r) (sf16_to_float g) (sf16_to_float b) (sf16_to_float a)))"

text \<open>
  32-bit data: \<open>assert(z_src == 0)\<close>, then \<open>data32[y_src * dim_x + x_src]\<close>. A failed
  assertion is the result \<open>None\<close>.
\<close>

definition fetch_f32 ::
  "pixel_region_variance_args \<Rightarrow> float4 list \<Rightarrow> int \<Rightarrow> int \<Rightarrow> int \<Rightarrow> float4 option" where
  "fetch_f32 arg data32 z_src y_src x_src =
     (if z_src \<noteq> 0 then None
      else
        let d = data32 ! nat (y_src * int (dim_x (img arg)) + x_src);
            sw = swz arg
        in Some (if needs_swz sw
                 then Float4 (swz_data (f4r d) (f4g d) (f4b d) (f4a d) 0 1 (swz_r sw))
                             (swz_data (f4r d) (f4g d) (f4b d) (f4a d) 0 1 (swz_g sw))
                             (swz_data (f4r d) (f4g d) (f4b d) (f4a d) 0 1 (swz_b sw))
                             (swz_data (f4r d) (f4g d) (f4b d) (f4a d) 0 1 (swz_a sw))
                 else d))"

text \<open>The switch on \<open>img->data_type\<close> that selects one of the three loops.\<close>

definition fetch ::
  "(16 word \<Rightarrow> real) \<Rightarrow> pixel_region_variance_args \<Rightarrow> int \<Rightarrow> int \<Rightarrow> int \<Rightarrow> float4 option" where
  "fetch sf16_to_float arg z_src y_src x_src =
     (case data (img arg) of
        ASTCENC_TYPE_U8 data8 \<Rightarrow> fetch_u8 arg data8 z_src y_src x_src
      | ASTCENC_TYPE_F16 data16 \<Rightarrow> fetch_f16 sf16_to_float arg data16 z_src y_src x_src
      | ASTCENC_TYPE_F32 data32 \<Rightarrow> fetch_f32 arg data32 z_src y_src x_src)"

text \<open>
  The value \<open>d\<close> a sampling loop stores for the clamped source coordinate: the fetched
  and swizzled texel, through the power block.
\<close>

definition texel ::
  "(16 word \<Rightarrow> real) \<Rightarrow> pixel_region_variance_args \<Rightarrow> int \<Rightarrow> int \<Rightarrow> int \<Rightarrow> float4 option" where
  "texel sf16_to_float arg z_src y_src x_src =
     map_option (power_curve arg) (fetch sf16_to_float arg z_src y_src x_src)"

subsection \<open>Filling the work buffers\<close>

text \<open>A \<open>for\<close> loop whose body may fail an assertion: the first failure ends it.\<close>

fun fold_opt :: "('k \<Rightarrow> 's \<Rightarrow> 's option) \<Rightarrow> 'k list \<Rightarrow> 's \<Rightarrow> 's option" where
  "fold_opt f [] s = Some s"
| "fold_opt f (k # ks) s = (case f k s of None \<Rightarrow> None | Some s' \<Rightarrow> fold_opt f ks s')"

text \<open>\<open>VARBUF1(z, y, x) = d; VARBUF2(z, y, x) = d * d\<close>.\<close>

definition store_texel :: "int \<Rightarrow> float4 \<Rightarrow> planes \<Rightarrow> planes" where
  "store_texel i d vb = ((fst vb)(i := d), (snd vb)(i := d * d))"

text \<open>
  The three nested sampling loops (\<open>Load N and N^2 values into the work buffers\<close>):
  \<open>z\<close> from \<open>zd_start\<close>, \<open>y\<close> and \<open>x\<close> from 1, each below its \<open>padsize\<close>; the source
  coordinate of every axis is clamped to the image.
\<close>

definition load_planes ::
  "(16 word \<Rightarrow> real) \<Rightarrow> pixel_region_variance_args \<Rightarrow> planes \<Rightarrow> planes option" where
  "load_planes sf16_to_float arg vb0 =
     fold_opt (\<lambda>z vb.
       let z_src = (z - zd_start arg) + offset_z arg - kernel_radius_z arg;
           z_src = astc_clamp z_src 0 (int (dim_z (img arg)) - 1)
       in fold_opt (\<lambda>y vb.
            let y_src = (y - 1) + offset_y arg - kernel_radius_xy arg;
                y_src = astc_clamp y_src 0 (int (dim_y (img arg)) - 1)
            in fold_opt (\<lambda>x vb.
                 let x_src = (x - 1) + offset_x arg - kernel_radius_xy arg;
                     x_src = astc_clamp x_src 0 (int (dim_x (img arg)) - 1)
                 in case texel sf16_to_float arg z_src y_src x_src of
                      None \<Rightarrow> None
                    | Some d \<Rightarrow> Some (store_texel (VARBUF arg z y x) d vb))
               [1..padsize_x arg - 1] vb)
          [1..padsize_y arg - 1] vb)
       [zd_start arg..padsize_z arg - 1] vb0"

text \<open>\<open>VARBUF1(z, y, x) = vbz; VARBUF2(z, y, x) = vbz\<close> with \<open>vbz = float4(0.0f)\<close>.\<close>

definition store_zero :: "int \<Rightarrow> planes \<Rightarrow> planes" where
  "store_zero i vb = ((fst vb)(i := 0), (snd vb)(i := 0))"

text \<open>\<open>Pad with an extra layer of 0s; this forms the edge of the SAT tables\<close>.\<close>

definition zero_pad :: "pixel_region_variance_args \<Rightarrow> planes \<Rightarrow> planes" where
  "zero_pad arg vb0 =
     (let vb1 =
        fold (\<lambda>z vb.
          let vb' = fold (\<lambda>y. store_zero (VARBUF arg z y 0)) [0..padsize_y arg - 1] vb
          in fold (\<lambda>x. store_zero (VARBUF arg z 0 x)) [0..padsize_x arg - 1] vb')
        [0..padsize_z arg - 1] vb0
      in if have_z arg
         then fold (\<lambda>y. fold (\<lambda>x. store_zero (VARBUF arg 0 y x)) [0..padsize_x arg - 1])
                [0..padsize_y arg - 1] vb1
         else vb1)"

text \<open>
  One line of both planes is prefix-summed:
  \<open>brent_kung_prefix_sum(&(VARBUF1(...)), items, stride)\<close> and the same for
  \<open>VARBUF2\<close>. The \<open>int\<close> arguments \<open>padsize - 1\<close> and the strides are not negative
  where the radii and the tile extents are not.
\<close>

definition prefix_sum_planes :: "int \<Rightarrow> nat \<Rightarrow> nat \<Rightarrow> planes \<Rightarrow> planes" where
  "prefix_sum_planes i items stride vb =
     (brent_kung_prefix_sum (fst vb) i items stride,
      brent_kung_prefix_sum (snd vb) i items stride)"

text \<open>\<open>Generate summed-area tables for N and N^2\<close>: along x, then y, then z.\<close>

definition build_sat :: "pixel_region_variance_args \<Rightarrow> planes \<Rightarrow> planes" where
  "build_sat arg vb0 =
     (let vb1 =
        fold (\<lambda>z. fold (\<lambda>y.
            prefix_sum_planes (VARBUF arg z y 1) (nat (padsize_x arg - 1)) 1)
          [1..padsize_y arg - 1])
        [zd_start arg..padsize_z arg - 1] vb0;
          vb2 =
        fold (\<lambda>z. fold (\<lambda>x.
            prefix_sum_planes (VARBUF arg z 1 x) (nat (padsize_y arg - 1)) (nat (yst arg)))
          [1..padsize_x arg - 1])
        [zd_start arg..padsize_z arg - 1] vb1
      in if have_z arg
         then fold (\<lambda>y. fold (\<lambda>x.
             prefix_sum_planes (VARBUF arg 1 y x) (nat (padsize_z arg - 1)) (nat (zst arg)))
           [1..padsize_x arg - 1])
         [1..padsize_y arg - 1] vb2
         else vb2)"

subsection \<open>Reading the statistics off the summed-area tables\<close>

definition avg_var_kdim :: "pixel_region_variance_args \<Rightarrow> int" where
  "avg_var_kdim arg = 2 * avg_var_kernel_radius arg + 1"

definition alpha_kdim :: "pixel_region_variance_args \<Rightarrow> int" where
  "alpha_kdim arg = 2 * alpha_kernel_radius arg + 1"

definition avg_var_samples :: "pixel_region_variance_args \<Rightarrow> real" where
  "avg_var_samples arg =
     (if have_z arg then real_of_int (avg_var_kdim arg * avg_var_kdim arg * avg_var_kdim arg)
      else real_of_int (avg_var_kdim arg * avg_var_kdim arg))"

definition alpha_rsamples :: "pixel_region_variance_args \<Rightarrow> real" where
  "alpha_rsamples arg =
     (if have_z arg then 1 / real_of_int (alpha_kdim arg * alpha_kdim arg * alpha_kdim arg)
      else 1 / real_of_int (alpha_kdim arg * alpha_kdim arg))"

definition avg_var_rsamples :: "pixel_region_variance_args \<Rightarrow> real" where
  "avg_var_rsamples arg = 1 / avg_var_samples arg"

definition mul1 :: "pixel_region_variance_args \<Rightarrow> real" where
  "mul1 arg =
     (if avg_var_samples arg = 1 then 1
      else 1 / (avg_var_samples arg * (avg_var_samples arg - 1)))"

definition mul2 :: "pixel_region_variance_args \<Rightarrow> real" where
  "mul2 arg = avg_var_samples arg * mul1 arg"

text \<open>
  The corners of the window along one axis, from the loop variable \<open>x\<close> (or \<open>y\<close>,
  \<open>z\<close>) and the padding radius \<open>kr\<close> of that axis: \<open>x_src = x + kr\<close>,
  \<open>x_low = x_src - alpha_kernel_radius\<close>, \<open>x_high = x_src + alpha_kernel_radius + 1\<close>.
  The three calls \<open>astc::clamp(x_src, ...); astc::clamp(x_low, ...);
  astc::clamp(x_high, ...)\<close> that follow drop the value \<open>astc::clamp\<close> returns, so the
  corners stay as computed. One pair of corners serves the alpha average and the
  RGBA sums alike.
\<close>

definition win_low :: "pixel_region_variance_args \<Rightarrow> int \<Rightarrow> int \<Rightarrow> int" where
  "win_low arg kr x = (let x_src = x + kr in x_src - alpha_kernel_radius arg)"

definition win_high :: "pixel_region_variance_args \<Rightarrow> int \<Rightarrow> int \<Rightarrow> int" where
  "win_high arg kr x = (let x_src = x + kr in x_src + alpha_kernel_radius arg + 1)"

text \<open>The four-corner lookup of the 2D branch in one plane \<open>v\<close>, at \<open>z = 0\<close>.\<close>

definition corners_2d ::
  "pixel_region_variance_args \<Rightarrow> (int \<Rightarrow> 'a::ab_group_add) \<Rightarrow> int \<Rightarrow> int \<Rightarrow> int \<Rightarrow> int \<Rightarrow> 'a" where
  "corners_2d arg v y_low y_high x_low x_high =
       v (VARBUF arg 0 y_low x_low)
     - v (VARBUF arg 0 y_low x_high)
     - v (VARBUF arg 0 y_high x_low)
     + v (VARBUF arg 0 y_high x_high)"

text \<open>The eight-corner lookup of the volumetric branch.\<close>

definition corners_3d ::
  "pixel_region_variance_args \<Rightarrow> (int \<Rightarrow> 'a::ab_group_add) \<Rightarrow>
     int \<Rightarrow> int \<Rightarrow> int \<Rightarrow> int \<Rightarrow> int \<Rightarrow> int \<Rightarrow> 'a" where
  "corners_3d arg v z_low z_high y_low y_high x_low x_high =
     (  v (VARBUF arg z_high y_low x_low)
      - v (VARBUF arg z_high y_low x_high)
      - v (VARBUF arg z_high y_high x_low)
      + v (VARBUF arg z_high y_high x_high)) -
     (  v (VARBUF arg z_low y_low x_low)
      - v (VARBUF arg z_low y_low x_high)
      - v (VARBUF arg z_low y_high x_low)
      + v (VARBUF arg z_low y_high x_high))"

text \<open>The three stores of one pixel, from the window sums.\<close>

definition emit ::
  "pixel_region_variance_args \<Rightarrow> int \<Rightarrow> real \<Rightarrow> float4 \<Rightarrow> float4 \<Rightarrow>
     astcenc_context \<Rightarrow> astcenc_context" where
  "emit arg out_index vasum v1sum v2sum ctx =
     (let ctx1 = ctx\<lparr>input_alpha_averages :=
                   (input_alpha_averages ctx)(out_index := vasum * alpha_rsamples arg)\<rparr>;
          avg = v1sum * splat (avg_var_rsamples arg);
          ctx2 = ctx1\<lparr>input_averages := (input_averages ctx1)(out_index := avg)\<rparr>;
          variance = splat (mul2 arg) * v2sum - splat (mul1 arg) * (v1sum * v1sum)
      in ctx2\<lparr>input_variances := (input_variances ctx2)(out_index := variance)\<rparr>)"

text \<open>
  \<open>out_index\<close>, from \<open>x_dst = x + offset_x\<close>, \<open>y_dst = y + offset_y\<close> and
  \<open>z_dst = z + offset_z\<close>: \<open>y_dst * ydt + x_dst\<close> in the 2D branch and
  \<open>z_dst * zdt + y_dst * ydt + x_dst\<close> in the volumetric one.
\<close>

definition out_index_2d :: "pixel_region_variance_args \<Rightarrow> int \<Rightarrow> int \<Rightarrow> int" where
  "out_index_2d arg y x =
     (let y_dst = y + offset_y arg; x_dst = x + offset_x arg in y_dst * ydt arg + x_dst)"

definition out_index_3d :: "pixel_region_variance_args \<Rightarrow> int \<Rightarrow> int \<Rightarrow> int \<Rightarrow> int" where
  "out_index_3d arg z y x =
     (let z_dst = z + offset_z arg; y_dst = y + offset_y arg; x_dst = x + offset_x arg
      in z_dst * zdt arg + y_dst * ydt arg + x_dst)"

text \<open>The body of the innermost loop of the 2D branch.\<close>

definition pixel_2d ::
  "pixel_region_variance_args \<Rightarrow> planes \<Rightarrow> int \<Rightarrow> int \<Rightarrow> astcenc_context \<Rightarrow> astcenc_context" where
  "pixel_2d arg vb y x ctx =
     (let y_low = win_low arg (kernel_radius_xy arg) y;
          y_high = win_high arg (kernel_radius_xy arg) y;
          x_low = win_low arg (kernel_radius_xy arg) x;
          x_high = win_high arg (kernel_radius_xy arg) x;
          vasum = corners_2d arg (\<lambda>i. f4a (fst vb i)) y_low y_high x_low x_high;
          out_index = out_index_2d arg y x;
          v1sum = corners_2d arg (fst vb) y_low y_high x_low x_high;
          v2sum = corners_2d arg (snd vb) y_low y_high x_low x_high
      in emit arg out_index vasum v1sum v2sum ctx)"

text \<open>The body of the innermost loop of the volumetric branch.\<close>

definition pixel_3d ::
  "pixel_region_variance_args \<Rightarrow> planes \<Rightarrow> int \<Rightarrow> int \<Rightarrow> int \<Rightarrow>
     astcenc_context \<Rightarrow> astcenc_context" where
  "pixel_3d arg vb z y x ctx =
     (let z_low = win_low arg (kernel_radius_z arg) z;
          z_high = win_high arg (kernel_radius_z arg) z;
          y_low = win_low arg (kernel_radius_xy arg) y;
          y_high = win_high arg (kernel_radius_xy arg) y;
          x_low = win_low arg (kernel_radius_xy arg) x;
          x_high = win_high arg (kernel_radius_xy arg) x;
          vasum = corners_3d arg (\<lambda>i. f4a (fst vb i)) z_low z_high y_low y_high x_low x_high;
          out_index = out_index_3d arg z y x;
          v1sum = corners_3d arg (fst vb) z_low z_high y_low y_high x_low x_high;
          v2sum = corners_3d arg (snd vb) z_low z_high y_low y_high x_low x_high
      in emit arg out_index vasum v1sum v2sum ctx)"

text \<open>\<open>Use the summed-area tables to compute variance for each neighborhood\<close>.\<close>

definition extract_stats ::
  "pixel_region_variance_args \<Rightarrow> planes \<Rightarrow> astcenc_context \<Rightarrow> astcenc_context" where
  "extract_stats arg vb ctx =
     (if have_z arg
      then fold (\<lambda>z. fold (\<lambda>y. fold (\<lambda>x. pixel_3d arg vb z y x)
                  [0..size_x arg - 1]) [0..size_y arg - 1]) [0..size_z arg - 1] ctx
      else fold (\<lambda>y. fold (\<lambda>x. pixel_2d arg vb y x)
                  [0..size_x arg - 1]) [0..size_y arg - 1] ctx)"

text \<open>
  The whole function: the context with its output arrays written, and the work memory
  as the call leaves it; \<open>None\<close> when the 32-bit loop fails its assertion.
\<close>

definition compute_pixel_region_variance ::
  "(16 word \<Rightarrow> real) \<Rightarrow> astcenc_context \<Rightarrow> pixel_region_variance_args \<Rightarrow>
     (astcenc_context \<times> planes) option" where
  "compute_pixel_region_variance sf16_to_float ctx arg =
     (case load_planes sf16_to_float arg (work_memory arg) of
        None \<Rightarrow> None
      | Some vb \<Rightarrow>
          let sat = build_sat arg (zero_pad arg vb)
          in Some (extract_stats arg sat ctx, sat))"

section \<open>The scheduler\<close>

record avg_var_args =
  ag_arg :: pixel_region_variance_args
  img_size_x :: int
  img_size_y :: int
  img_size_z :: int
  blk_size_x :: int
  blk_size_y :: int
  blk_size_z :: int
  work_memory_size :: int

text \<open>
  \<open>init_compute_averages_and_variances\<close>: the arguments shared by all tiles and the
  number of parallel tasks it returns. \<open>arg.work_memory = nullptr\<close> is a work memory
  nobody reads (every worker puts its own allocation in place).
\<close>

definition init_compute_averages_and_variances ::
  "astcenc_image \<Rightarrow> real \<Rightarrow> real \<Rightarrow> int \<Rightarrow> int \<Rightarrow> astcenc_swizzle \<Rightarrow> avg_var_args \<times> int" where
  "init_compute_averages_and_variances im rgb_pow alpha_pow avg_var_radius alpha_radius sw =
     (let sx = int (dim_x im);
          sy = int (dim_y im);
          sz = int (dim_z im);
          kr = max avg_var_radius alpha_radius;
          kdim = 2 * kr + 1;
          hz = (sz > 1);
          max_blk_size_xy = (if hz then 16 else 32);
          max_blk_size_z = min sz (if hz then 16 else 1);
          max_padsize_xy = max_blk_size_xy + kdim;
          max_padsize_z = max_blk_size_z + (if hz then kdim else 0);
          a = \<lparr>img = im, rgb_power = rgb_pow, alpha_power = alpha_pow, swz = sw,
               have_z = hz, avg_var_kernel_radius = avg_var_radius,
               alpha_kernel_radius = alpha_radius,
               size_x = 0, size_y = 0, size_z = 0,
               offset_x = 0, offset_y = 0, offset_z = 0,
               work_memory = (\<lambda>i. 0, \<lambda>i. 0)\<rparr>;
          ag = \<lparr>ag_arg = a, img_size_x = sx, img_size_y = sy, img_size_z = sz,
                blk_size_x = max_blk_size_xy, blk_size_y = max_blk_size_xy,
                blk_size_z = max_blk_size_z,
                work_memory_size = 2 * max_padsize_xy * max_padsize_xy * max_padsize_z\<rparr>;
          z_tasks = (sz + max_blk_size_z - 1) div max_blk_size_z;
          y_tasks = (sy + max_blk_size_xy - 1) div max_blk_size_xy
      in (ag, z_tasks * y_tasks))"

text \<open>
  Modelled from the spec: the work cursor \<open>ctx.manage_avg_var\<close> is declared outside the
  sources at hand. \<open>claim(n)\<close> reserves up to \<open>n\<close> units starting at the current
  cursor and returns the starting index and the count granted, 0 when exhausted.
\<close>

record parallel_manager =
  pm_cursor :: nat
  pm_task_count :: nat

definition get_task_assignment :: "nat \<Rightarrow> parallel_manager \<Rightarrow> nat \<times> nat \<times> parallel_manager" where
  "get_task_assignment granule pm =
     (let base = pm_cursor pm;
          count = min granule (pm_task_count pm - base)
      in (base, count, pm\<lparr>pm_cursor := base + count\<rparr>))"

text \<open>
  The tile of a unit: \<open>y_tasks = (size_y + step_y - 1) / step_y\<close>, then
  \<open>int z = (base / (y_tasks)) * step_z\<close> and
  \<open>int y = (base - (z * y_tasks)) * step_y\<close>. \<open>base\<close> is an \<open>unsigned int\<close>, so
  both right-hand sides are computed in 32-bit unsigned arithmetic and converted to
  \<open>int\<close>.
\<close>

definition y_tasks_of :: "avg_var_args \<Rightarrow> int" where
  "y_tasks_of ag = (img_size_y ag + blk_size_y ag - 1) div blk_size_y ag"

definition unit_z :: "avg_var_args \<Rightarrow> nat \<Rightarrow> int" where
  "unit_z ag base =
     sint ((of_nat base div word_of_int (y_tasks_of ag)) * word_of_int (blk_size_z ag) :: 32 word)"

definition unit_y :: "avg_var_args \<Rightarrow> nat \<Rightarrow> int" where
  "unit_y ag base =
     sint ((of_nat base - word_of_int (unit_z ag base * y_tasks_of ag))
            * word_of_int (blk_size_y ag) :: 32 word)"

text \<open>
  The arguments of the tile at \<open>x\<close> of a unit: \<open>arg.size.b = MIN(step_z, size_z - z)\<close>,
  \<open>arg.offset.b = z\<close>, the same for \<open>y\<close>, and \<open>arg.size.r = MIN(step_x, size_x - x)\<close>,
  \<open>arg.offset.r = x\<close>.
\<close>

definition tile_arg :: "avg_var_args \<Rightarrow> nat \<Rightarrow> int \<Rightarrow> pixel_region_variance_args" where
  "tile_arg ag base x =
     (let z = unit_z ag base; y = unit_y ag base
      in (ag_arg ag)\<lparr>size_z := min (blk_size_z ag) (img_size_z ag - z), offset_z := z,
                  size_y := min (blk_size_y ag) (img_size_y ag - y), offset_y := y,
                  size_x := min (blk_size_x ag) (img_size_x ag - x), offset_x := x\<rparr>)"

text \<open>
  The values of \<open>x\<close> in \<open>for (int x = 0; x < size_x; x += step_x)\<close>, from \<open>x\<close> on. The
  loop ends for a positive step only; for another step the list is empty and the
  loop itself is \<open>None\<close> below.
\<close>

function x_steps :: "int \<Rightarrow> int \<Rightarrow> int \<Rightarrow> int list" where
  "x_steps sx step x = (if 0 < step \<and> x < sx then x # x_steps sx step (x + step) else [])"
  by pat_completeness auto
termination
  by (relation "measure (\<lambda>(sx, step, x). nat (sx - x))") auto

definition process_unit ::
  "(16 word \<Rightarrow> real) \<Rightarrow> avg_var_args \<Rightarrow> nat \<Rightarrow> astcenc_context \<times> planes \<Rightarrow>
     (astcenc_context \<times> planes) option" where
  "process_unit sf16_to_float ag base cw =
     (if blk_size_x ag \<le> 0 then None
      else fold_opt (\<lambda>x (ctx, wm).
             compute_pixel_region_variance sf16_to_float ctx
               ((tile_arg ag base x)\<lparr>work_memory := wm\<rparr>))
           (x_steps (img_size_x ag) (blk_size_x ag) 0) cw)"

text \<open>
  \<open>compute_averages_and_variances\<close> for one worker: claim a unit, process it, until
  no unit is granted. \<open>wm\<close> is the content of the worker's fresh allocation.
\<close>

function worker_loop ::
  "(16 word \<Rightarrow> real) \<Rightarrow> avg_var_args \<Rightarrow> parallel_manager \<Rightarrow> astcenc_context \<times> planes \<Rightarrow>
     (parallel_manager \<times> astcenc_context) option" where
  "worker_loop sf16_to_float ag pm cw =
     (case get_task_assignment 1 pm of
        (base, count, pm') \<Rightarrow>
          if count = 0 then Some (pm', fst cw)
          else (case process_unit sf16_to_float ag base cw of
                  None \<Rightarrow> None
                | Some cw' \<Rightarrow> worker_loop sf16_to_float ag pm' cw'))"
  by pat_completeness auto
termination
  by (relation "measure (\<lambda>(sf, ag, pm, cw). pm_task_count pm - pm_cursor pm)")
    (auto simp: get_task_assignment_def Let_def min_def split: if_splits)

definition compute_averages_and_variances ::
  "(16 word \<Rightarrow> real) \<Rightarrow> parallel_manager \<Rightarrow> astcenc_context \<Rightarrow> avg_var_args \<Rightarrow> planes \<Rightarrow>
     (parallel_manager \<times> astcenc_context) option" where
  "compute_averages_and_variances sf16_to_float pm ctx ag wm =
     worker_loop sf16_to_float ag pm (ctx, wm)"

subsection \<open>The output indices a run writes\<close>

text \<open>
  The values of \<open>out_index\<close> in the order the loops of \<open>extract_stats\<close> reach them, for
  one tile, for one unit, and for all the units of a run.
\<close>

definition tile_out_indices :: "pixel_region_variance_args \<Rightarrow> int list" where
  "tile_out_indices a =
     (if have_z a
      then concat (map (\<lambda>z. concat (map (\<lambda>y. map (\<lambda>x. out_index_3d a z y x)
                  [0..size_x a - 1]) [0..size_y a - 1])) [0..size_z a - 1])
      else concat (map (\<lambda>y. map (\<lambda>x. out_index_2d a y x)
                  [0..size_x a - 1]) [0..size_y a - 1]))"

definition unit_out_indices :: "avg_var_args \<Rightarrow> nat \<Rightarrow> int list" where
  "unit_out_indices ag base =
     concat (map (\<lambda>x. tile_out_indices (tile_arg ag base x))
               (x_steps (img_size_x ag) (blk_size_x ag) 0))"

definition run_out_indices :: "avg_var_args \<Rightarrow> nat \<Rightarrow> int list" where
  "run_out_indices ag total_units = concat (map (unit_out_indices ag) [0..<total_units])"

section \<open>Invariants of the prefix sum\<close>

text \<open>
  The recursive equations of the two tree loops are unfolded by hand in the proofs.
\<close>

declare bk_reduce.simps [simp del] bk_expand.simps [simp del]

text \<open>
  \<open>low_pow l q\<close> is the largest power of two that divides \<open>q\<close> among
  \<open>1, 2, ..., 2 ^ l\<close>. After the reduction tree has run its levels up to \<open>l\<close>,
  element \<open>q - 1\<close> holds the sum of the \<open>low_pow l q\<close> original elements that end
  with it (\<open>up_inv\<close>). While the expansion tree runs, the elements whose position
  \<open>q\<close> is a multiple of \<open>2 ^ k\<close> already hold their whole prefix (\<open>down_inv\<close>).
\<close>

fun low_pow :: "nat \<Rightarrow> nat \<Rightarrow> nat" where
  "low_pow 0 m = 1"
| "low_pow (Suc l) m = (if 2 ^ Suc l dvd m then 2 ^ Suc l else low_pow l m)"

definition up_inv :: "nat \<Rightarrow> (nat \<Rightarrow> 'a::comm_monoid_add) \<Rightarrow> (nat \<Rightarrow> 'a) \<Rightarrow> nat \<Rightarrow> bool" where
  "up_inv l v c n \<longleftrightarrow> (\<forall>q. 0 < q \<longrightarrow> q \<le> n \<longrightarrow> c (q - 1) = sum v {q - low_pow l q..<q})"

definition down_inv :: "nat \<Rightarrow> (nat \<Rightarrow> 'a::comm_monoid_add) \<Rightarrow> (nat \<Rightarrow> 'a) \<Rightarrow> nat \<Rightarrow> bool" where
  "down_inv k v c n \<longleftrightarrow>
     (\<forall>q. 0 < q \<longrightarrow> q \<le> n \<longrightarrow>
        c (q - 1) = (if 2 ^ k dvd q then sum v {0..<q} else sum v {q - low_pow k q..<q}))"

text \<open>The elements of a strided sequence, and the addresses it occupies.\<close>

definition line :: "(int \<Rightarrow> 'a) \<Rightarrow> int \<Rightarrow> nat \<Rightarrow> nat \<Rightarrow> 'a" where
  "line m d s p = m (d + int (p * s))"

definition on_line :: "int \<Rightarrow> nat \<Rightarrow> nat \<Rightarrow> int \<Rightarrow> bool" where
  "on_line d s n a \<longleftrightarrow> (\<exists>p<n. a = d + int (p * s))"

section \<open>Closed forms of the phases\<close>

text \<open>
  The clamped source coordinates of the sampling loops, as functions of the buffer
  coordinate, and the value the loops store in \<open>VARBUF1(z, y, x)\<close>.
\<close>

definition src_x :: "pixel_region_variance_args \<Rightarrow> int \<Rightarrow> int" where
  "src_x arg x =
     astc_clamp ((x - 1) + offset_x arg - kernel_radius_xy arg) 0 (int (dim_x (img arg)) - 1)"

definition src_y :: "pixel_region_variance_args \<Rightarrow> int \<Rightarrow> int" where
  "src_y arg y =
     astc_clamp ((y - 1) + offset_y arg - kernel_radius_xy arg) 0 (int (dim_y (img arg)) - 1)"

definition src_z :: "pixel_region_variance_args \<Rightarrow> int \<Rightarrow> int" where
  "src_z arg z =
     astc_clamp ((z - zd_start arg) + offset_z arg - kernel_radius_z arg) 0
       (int (dim_z (img arg)) - 1)"

definition cell ::
  "(16 word \<Rightarrow> real) \<Rightarrow> pixel_region_variance_args \<Rightarrow> int \<Rightarrow> int \<Rightarrow> int \<Rightarrow> float4 option" where
  "cell sf16_to_float arg z y x =
     texel sf16_to_float arg (src_z arg z) (src_y arg y) (src_x arg x)"

text \<open>No assertion fails while the buffers are filled.\<close>

definition loads_ok :: "(16 word \<Rightarrow> real) \<Rightarrow> pixel_region_variance_args \<Rightarrow> bool" where
  "loads_ok sf16_to_float arg \<longleftrightarrow>
     (\<forall>z \<in> set [zd_start arg..padsize_z arg - 1].
      \<forall>y \<in> set [1..padsize_y arg - 1].
      \<forall>x \<in> set [1..padsize_x arg - 1]. cell sf16_to_float arg z y x \<noteq> None)"

text \<open>The sampling loops when no assertion fails.\<close>

definition load_pure ::
  "(16 word \<Rightarrow> real) \<Rightarrow> pixel_region_variance_args \<Rightarrow> planes \<Rightarrow> planes" where
  "load_pure sf16_to_float arg vb0 =
     fold (\<lambda>z. fold (\<lambda>y. fold (\<lambda>x.
         store_texel (VARBUF arg z y x) (the (cell sf16_to_float arg z y x)))
       [1..padsize_x arg - 1]) [1..padsize_y arg - 1]) [zd_start arg..padsize_z arg - 1] vb0"

text \<open>The sampling loops on one plane, storing \<open>R z y x\<close> at \<open>(z, y, x)\<close>.\<close>

definition load_plane ::
  "(int \<Rightarrow> int \<Rightarrow> int \<Rightarrow> 'a) \<Rightarrow> pixel_region_variance_args \<Rightarrow> (int \<Rightarrow> 'a) \<Rightarrow> (int \<Rightarrow> 'a)" where
  "load_plane R arg v0 =
     fold (\<lambda>z. fold (\<lambda>y. fold (\<lambda>x v. v(VARBUF arg z y x := R z y x))
       [1..padsize_x arg - 1]) [1..padsize_y arg - 1]) [zd_start arg..padsize_z arg - 1] v0"

text \<open>The coordinates inside the padded buffer.\<close>

definition in_box :: "pixel_region_variance_args \<Rightarrow> int \<Rightarrow> int \<Rightarrow> int \<Rightarrow> bool" where
  "in_box arg z y x \<longleftrightarrow>
     0 \<le> x \<and> x < padsize_x arg \<and> 0 \<le> y \<and> y < padsize_y arg \<and> 0 \<le> z \<and> z < padsize_z arg"

text \<open>The content of a plane after sampling and zero padding: zero on the border layer.\<close>

definition padded ::
  "pixel_region_variance_args \<Rightarrow> (int \<Rightarrow> int \<Rightarrow> int \<Rightarrow> 'a::zero) \<Rightarrow> int \<Rightarrow> int \<Rightarrow> int \<Rightarrow> 'a" where
  "padded arg R z y x = (if x = 0 \<or> y = 0 \<or> (have_z arg \<and> z = 0) then 0 else R z y x)"

text \<open>What \<open>zero_pad\<close> and \<open>build_sat\<close> do to one plane.\<close>

definition zero_plane :: "pixel_region_variance_args \<Rightarrow> (int \<Rightarrow> 'a::zero) \<Rightarrow> (int \<Rightarrow> 'a)" where
  "zero_plane arg v0 =
     (let v1 =
        fold (\<lambda>z v.
          let v' = fold (\<lambda>y v. v(VARBUF arg z y 0 := 0)) [0..padsize_y arg - 1] v
          in fold (\<lambda>x v. v(VARBUF arg z 0 x := 0)) [0..padsize_x arg - 1] v')
        [0..padsize_z arg - 1] v0
      in if have_z arg
         then fold (\<lambda>y. fold (\<lambda>x v. v(VARBUF arg 0 y x := 0)) [0..padsize_x arg - 1])
                [0..padsize_y arg - 1] v1
         else v1)"

definition sat_x :: "pixel_region_variance_args \<Rightarrow> (int \<Rightarrow> 'a::plus) \<Rightarrow> (int \<Rightarrow> 'a)" where
  "sat_x arg v =
     fold (\<lambda>z. fold (\<lambda>y v.
         brent_kung_prefix_sum v (VARBUF arg z y 1) (nat (padsize_x arg - 1)) 1)
       [1..padsize_y arg - 1]) [zd_start arg..padsize_z arg - 1] v"

definition sat_y :: "pixel_region_variance_args \<Rightarrow> (int \<Rightarrow> 'a::plus) \<Rightarrow> (int \<Rightarrow> 'a)" where
  "sat_y arg v =
     fold (\<lambda>z. fold (\<lambda>x v.
         brent_kung_prefix_sum v (VARBUF arg z 1 x) (nat (padsize_y arg - 1)) (nat (yst arg)))
       [1..padsize_x arg - 1]) [zd_start arg..padsize_z arg - 1] v"

definition sat_z :: "pixel_region_variance_args \<Rightarrow> (int \<Rightarrow> 'a::plus) \<Rightarrow> (int \<Rightarrow> 'a)" where
  "sat_z arg v =
     fold (\<lambda>y. fold (\<lambda>x v.
         brent_kung_prefix_sum v (VARBUF arg 1 y x) (nat (padsize_z arg - 1)) (nat (zst arg)))
       [1..padsize_x arg - 1]) [1..padsize_y arg - 1] v"

definition sat_plane :: "pixel_region_variance_args \<Rightarrow> (int \<Rightarrow> 'a::plus) \<Rightarrow> (int \<Rightarrow> 'a)" where
  "sat_plane arg v =
     (if have_z arg then sat_z arg (sat_y arg (sat_x arg v)) else sat_y arg (sat_x arg v))"

text \<open>
  The sum of \<open>S\<close> over the window of the pixel \<open>(x, y)\<close> of a tile, or \<open>(x, y, z)\<close> when
  volumetric, in buffer coordinates: the cells above \<open>low\<close> up to \<open>high\<close> on every
  axis, in plane 0 for a 2D tile.
\<close>

definition box_sum_2d ::
  "pixel_region_variance_args \<Rightarrow> (int \<Rightarrow> int \<Rightarrow> int \<Rightarrow> 'a::comm_monoid_add) \<Rightarrow> int \<Rightarrow> int \<Rightarrow> 'a" where
  "box_sum_2d arg S y x =
     (\<Sum>y' \<in> {win_low arg (kernel_radius_xy arg) y + 1..win_high arg (kernel_radius_xy arg) y}.
      \<Sum>x' \<in> {win_low arg (kernel_radius_xy arg) x + 1..win_high arg (kernel_radius_xy arg) x}.
        S 0 y' x')"

definition box_sum_3d ::
  "pixel_region_variance_args \<Rightarrow> (int \<Rightarrow> int \<Rightarrow> int \<Rightarrow> 'a::comm_monoid_add) \<Rightarrow>
     int \<Rightarrow> int \<Rightarrow> int \<Rightarrow> 'a" where
  "box_sum_3d arg S z y x =
     (\<Sum>z' \<in> {win_low arg (kernel_radius_z arg) z + 1..win_high arg (kernel_radius_z arg) z}.
      \<Sum>y' \<in> {win_low arg (kernel_radius_xy arg) y + 1..win_high arg (kernel_radius_xy arg) y}.
      \<Sum>x' \<in> {win_low arg (kernel_radius_xy arg) x + 1..win_high arg (kernel_radius_xy arg) x}.
        S z' y' x')"

text \<open>The value stored at a cell, and its square.\<close>

definition cell_value ::
  "(16 word \<Rightarrow> real) \<Rightarrow> pixel_region_variance_args \<Rightarrow> int \<Rightarrow> int \<Rightarrow> int \<Rightarrow> float4" where
  "cell_value sf16_to_float arg z y x = the (cell sf16_to_float arg z y x)"

definition cell_square ::
  "(16 word \<Rightarrow> real) \<Rightarrow> pixel_region_variance_args \<Rightarrow> int \<Rightarrow> int \<Rightarrow> int \<Rightarrow> float4" where
  "cell_square sf16_to_float arg z y x =
     cell_value sf16_to_float arg z y x * cell_value sf16_to_float arg z y x"

text \<open>The average and the variance \<open>emit\<close> stores, from the two window sums.\<close>

definition average_of :: "pixel_region_variance_args \<Rightarrow> float4 \<Rightarrow> float4" where
  "average_of arg v1sum = v1sum * splat (avg_var_rsamples arg)"

definition variance_of :: "pixel_region_variance_args \<Rightarrow> float4 \<Rightarrow> float4 \<Rightarrow> float4" where
  "variance_of arg v1sum v2sum = splat (mul2 arg) * v2sum - splat (mul1 arg) * (v1sum * v1sum)"

text \<open>The tile lies inside the image along x and y, so no two of its pixels share an
  output index.\<close>

definition tile_in_image :: "pixel_region_variance_args \<Rightarrow> bool" where
  "tile_in_image arg \<longleftrightarrow>
     0 \<le> offset_x arg \<and> offset_x arg + size_x arg \<le> int (dim_x (img arg)) \<and>
     0 \<le> offset_y arg \<and> offset_y arg + size_y arg \<le> int (dim_y (img arg))"

section \<open>Windows in image coordinates\<close>

text \<open>
  The index a pixel \<open>(x, y, z)\<close> of the tile is written at; in the 2D branch the loops
  run over \<open>x\<close> and \<open>y\<close> only.
\<close>

definition out_index :: "pixel_region_variance_args \<Rightarrow> int \<Rightarrow> int \<Rightarrow> int \<Rightarrow> int" where
  "out_index arg z y x = (if have_z arg then out_index_3d arg z y x else out_index_2d arg y x)"

text \<open>Clamp-to-edge along each axis of the image.\<close>

definition clamp_x :: "pixel_region_variance_args \<Rightarrow> int \<Rightarrow> int" where
  "clamp_x arg v = astc_clamp v 0 (int (dim_x (img arg)) - 1)"

definition clamp_y :: "pixel_region_variance_args \<Rightarrow> int \<Rightarrow> int" where
  "clamp_y arg v = astc_clamp v 0 (int (dim_y (img arg)) - 1)"

definition clamp_z :: "pixel_region_variance_args \<Rightarrow> int \<Rightarrow> int" where
  "clamp_z arg v = astc_clamp v 0 (int (dim_z (img arg)) - 1)"

text \<open>The value the sampling loops store for a source coordinate.\<close>

definition texel_value ::
  "(16 word \<Rightarrow> real) \<Rightarrow> pixel_region_variance_args \<Rightarrow> int \<Rightarrow> int \<Rightarrow> int \<Rightarrow> float4" where
  "texel_value sf16_to_float arg z_src y_src x_src = the (texel sf16_to_float arg z_src y_src x_src)"

definition texel_square ::
  "(16 word \<Rightarrow> real) \<Rightarrow> pixel_region_variance_args \<Rightarrow> int \<Rightarrow> int \<Rightarrow> int \<Rightarrow> float4" where
  "texel_square sf16_to_float arg z_src y_src x_src =
     texel_value sf16_to_float arg z_src y_src x_src * texel_value sf16_to_float arg z_src y_src x_src"

text \<open>
  The sum of \<open>S\<close> over the window the extraction reads for the pixel \<open>(x, y, z)\<close> of a
  tile, in image coordinates: \<open>alpha_kernel_radius\<close> to either side of the pixel on
  every active axis, each coordinate clamped to the image.
\<close>

definition window_sum ::
  "pixel_region_variance_args \<Rightarrow> (int \<Rightarrow> int \<Rightarrow> int \<Rightarrow> 'a::comm_monoid_add) \<Rightarrow>
     int \<Rightarrow> int \<Rightarrow> int \<Rightarrow> 'a" where
  "window_sum arg S z y x =
     (\<Sum>dz \<in> (if have_z arg then {- alpha_kernel_radius arg..alpha_kernel_radius arg} else {0}).
      \<Sum>dy \<in> {- alpha_kernel_radius arg..alpha_kernel_radius arg}.
      \<Sum>dx \<in> {- alpha_kernel_radius arg..alpha_kernel_radius arg}.
        S (clamp_z arg ((if have_z arg then z else 0) + offset_z arg + dz))
          (clamp_y arg (y + offset_y arg + dy))
          (clamp_x arg (x + offset_x arg + dx)))"

section \<open>Exchanging two channels\<close>

text \<open>
  The four channels of a texel, the selector a swizzle has for a channel and the value
  a vector has in it.
\<close>

datatype channel = Chan_R | Chan_G | Chan_B | Chan_A

fun selector :: "astcenc_swizzle \<Rightarrow> channel \<Rightarrow> astcenc_swz" where
  "selector sw Chan_R = swz_r sw"
| "selector sw Chan_G = swz_g sw"
| "selector sw Chan_B = swz_b sw"
| "selector sw Chan_A = swz_a sw"

fun channel_of :: "float4 \<Rightarrow> channel \<Rightarrow> real" where
  "channel_of v Chan_R = f4r v"
| "channel_of v Chan_G = f4g v"
| "channel_of v Chan_B = f4b v"
| "channel_of v Chan_A = f4a v"

definition exchange :: "channel \<Rightarrow> channel \<Rightarrow> channel \<Rightarrow> channel" where
  "exchange i j k = (if k = i then j else if k = j then i else k)"

text \<open>The swizzle with the selectors of \<open>i\<close> and \<open>j\<close> exchanged.\<close>

definition swap_selectors :: "channel \<Rightarrow> channel \<Rightarrow> astcenc_swizzle \<Rightarrow> astcenc_swizzle" where
  "swap_selectors i j sw =
     \<lparr>swz_r = selector sw (exchange i j Chan_R), swz_g = selector sw (exchange i j Chan_G),
      swz_b = selector sw (exchange i j Chan_B), swz_a = selector sw (exchange i j Chan_A)\<rparr>"

text \<open>The vector with the channels \<open>i\<close> and \<open>j\<close> swapped.\<close>

definition swap_channels :: "channel \<Rightarrow> channel \<Rightarrow> float4 \<Rightarrow> float4" where
  "swap_channels i j v =
     Float4 (channel_of v (exchange i j Chan_R)) (channel_of v (exchange i j Chan_G))
            (channel_of v (exchange i j Chan_B)) (channel_of v (exchange i j Chan_A))"

section \<open>The source pixel of a cell\<close>

text \<open>
  Modelled from the spec: the image's raw buffer accessor by \<open>(x, y, z)\<close>, which is
  not among the sources. The buffer is row-major and contiguous, four channels per
  pixel, so the pixel \<open>(x, y, z)\<close> of a flat buffer is at
  \<open>(z * dim_y + y) * dim_x + x\<close>; the 16-bit buffer is the array of slices of rows the
  code declares. The four channels are decoded to floats: 8-bit values normalised to
  \<open>[0, 1]\<close>, 16-bit values through \<open>sf16_to_float\<close>, 32-bit values as they are.
\<close>

definition source_pixel ::
  "(16 word \<Rightarrow> real) \<Rightarrow> astcenc_image \<Rightarrow> int \<Rightarrow> int \<Rightarrow> int \<Rightarrow> float4" where
  "source_pixel sf16_to_float im z y x =
     (case data im of
        ASTCENC_TYPE_U8 data8 \<Rightarrow>
          let px = ((z * int (dim_y im) + y) * int (dim_x im) + x) * 4
          in Float4 (real (unat (data8 ! nat (px + 0))) / 255)
                    (real (unat (data8 ! nat (px + 1))) / 255)
                    (real (unat (data8 ! nat (px + 2))) / 255)
                    (real (unat (data8 ! nat (px + 3))) / 255)
      | ASTCENC_TYPE_F16 data16 \<Rightarrow>
          let row = data16 ! nat z ! nat y
          in Float4 (sf16_to_float (row ! nat (4 * x)))
                    (sf16_to_float (row ! nat (4 * x + 1)))
                    (sf16_to_float (row ! nat (4 * x + 2)))
                    (sf16_to_float (row ! nat (4 * x + 3)))
      | ASTCENC_TYPE_F32 data32 \<Rightarrow>
          data32 ! nat ((z * int (dim_y im) + y) * int (dim_x im) + x))"

text \<open>The swizzle on a decoded texel: the selectors 0 and 1 give zero and one.\<close>

definition swizzled :: "astcenc_swizzle \<Rightarrow> float4 \<Rightarrow> float4" where
  "swizzled sw d =
     Float4 (swz_data (f4r d) (f4g d) (f4b d) (f4a d) 0 1 (swz_r sw))
            (swz_data (f4r d) (f4g d) (f4b d) (f4a d) 0 1 (swz_g sw))
            (swz_data (f4r d) (f4g d) (f4b d) (f4a d) 0 1 (swz_b sw))
            (swz_data (f4r d) (f4g d) (f4b d) (f4a d) 0 1 (swz_a sw))"

section \<open>Concrete inputs\<close>

definition identity_swz :: astcenc_swizzle where
  "identity_swz =
     \<lparr>swz_r = ASTCENC_SWZ_R, swz_g = ASTCENC_SWZ_G, swz_b = ASTCENC_SWZ_B, swz_a = ASTCENC_SWZ_A\<rparr>"

text \<open>The arguments of a tile at the origin of a 2D image, with an all-zero work memory.\<close>

definition tile_2d ::
  "astcenc_image \<Rightarrow> real \<Rightarrow> real \<Rightarrow> astcenc_swizzle \<Rightarrow> int \<Rightarrow> int \<Rightarrow> int \<Rightarrow> int \<Rightarrow>
     pixel_region_variance_args" where
  "tile_2d im rgb_pow alpha_pow sw avg_var_radius alpha_radius sx sy =
     \<lparr>img = im, rgb_power = rgb_pow, alpha_power = alpha_pow, swz = sw, have_z = False,
      avg_var_kernel_radius = avg_var_radius, alpha_kernel_radius = alpha_radius,
      size_x = sx, size_y = sy, size_z = 1, offset_x = 0, offset_y = 0, offset_z = 0,
      work_memory = (\<lambda>i. 0, \<lambda>i. 0)\<rparr>"

text \<open>A 1x1 image of 32-bit floats whose red is zero.\<close>

definition image_dark_red :: astcenc_image where
  "image_dark_red =
     \<lparr>dim_x = 1, dim_y = 1, dim_z = 1,
      data = ASTCENC_TYPE_F32 [Float4 0 (1 / 2) (1 / 2) (1 / 4)]\<rparr>"

text \<open>A context whose output arrays are all zero.\<close>

definition ctx_zero :: astcenc_context where
  "ctx_zero =
     \<lparr>input_alpha_averages = (\<lambda>i. 0), input_averages = (\<lambda>i. 0), input_variances = (\<lambda>i. 0)\<rparr>"

text \<open>A 3x3 image of 32-bit floats, every channel of every pixel 1.\<close>

definition image_ones_3x3 :: astcenc_image where
  "image_ones_3x3 =
     \<lparr>dim_x = 3, dim_y = 3, dim_z = 1,
      data = ASTCENC_TYPE_F32 (replicate 9 (Float4 1 1 1 1))\<rparr>"


text \<open>A 2x2 image of 32-bit floats with sixteen different channel values.\<close>

definition image_ramp_2x2 :: astcenc_image where
  "image_ramp_2x2 =
     \<lparr>dim_x = 2, dim_y = 2, dim_z = 1,
      data = ASTCENC_TYPE_F32
        [Float4 1 2 3 4, Float4 5 6 7 8, Float4 9 10 11 12, Float4 13 14 15 16]\<rparr>"

text \<open>A 2x2 image of 32-bit floats, every channel of every pixel one half.\<close>

definition image_half_2x2 :: astcenc_image where
  "image_half_2x2 =
     \<lparr>dim_x = 2, dim_y = 2, dim_z = 1,
      data = ASTCENC_TYPE_F32 (replicate 4 (Float4 (1 / 2) (1 / 2) (1 / 2) (1 / 2)))\<rparr>"

text \<open>A 1x1 image of 32-bit floats whose alpha differs from its colour channels.\<close>

definition image_grey_pixel :: astcenc_image where
  "image_grey_pixel =
     \<lparr>dim_x = 1, dim_y = 1, dim_z = 1,
      data = ASTCENC_TYPE_F32 [Float4 (1 / 2) (1 / 2) (1 / 2) (1 / 4)]\<rparr>"

text \<open>The arguments of a tile at the origin of a volumetric image.\<close>

definition tile_3d ::
  "astcenc_image \<Rightarrow> real \<Rightarrow> real \<Rightarrow> astcenc_swizzle \<Rightarrow> int \<Rightarrow> int \<Rightarrow> int \<Rightarrow> int \<Rightarrow> int \<Rightarrow>
     pixel_region_variance_args" where
  "tile_3d im rgb_pow alpha_pow sw avg_var_radius alpha_radius sx sy sz =
     \<lparr>img = im, rgb_power = rgb_pow, alpha_power = alpha_pow, swz = sw, have_z = True,
      avg_var_kernel_radius = avg_var_radius, alpha_kernel_radius = alpha_radius,
      size_x = sx, size_y = sy, size_z = sz, offset_x = 0, offset_y = 0, offset_z = 0,
      work_memory = (\<lambda>i. 0, \<lambda>i. 0)\<rparr>"

text \<open>
  Two 1x1x2 images, black in slice 0 and white in slice 1: one of 8-bit data, one of
  16-bit floats; and a decoder of half floats that knows zero and one.
\<close>

definition image_u8_two_slices :: astcenc_image where
  "image_u8_two_slices =
     \<lparr>dim_x = 1, dim_y = 1, dim_z = 2, data = ASTCENC_TYPE_U8 [0, 0, 0, 0, 255, 255, 255, 255]\<rparr>"

definition image_f16_two_slices :: astcenc_image where
  "image_f16_two_slices =
     \<lparr>dim_x = 1, dim_y = 1, dim_z = 2,
      data = ASTCENC_TYPE_F16 [[[0, 0, 0, 0]], [[0x3C00, 0x3C00, 0x3C00, 0x3C00]]]\<rparr>"

definition sf16_zero_one :: "16 word \<Rightarrow> real" where
  "sf16_zero_one h = (if h = 0x3C00 then 1 else 0)"

text \<open>A volumetric 8-bit image of 17 slices of one pixel, all black.\<close>

definition image_17_slices :: astcenc_image where
  "image_17_slices =
     \<lparr>dim_x = 1, dim_y = 1, dim_z = 17, data = ASTCENC_TYPE_U8 (replicate 68 0)\<rparr>"

text \<open>A 2x2 image of 8-bit data with sixteen different channel values.\<close>

definition image_u8_2x2 :: astcenc_image where
  "image_u8_2x2 =
     \<lparr>dim_x = 2, dim_y = 2, dim_z = 1,
      data = ASTCENC_TYPE_U8
        [10, 20, 30, 40, 50, 60, 70, 80, 90, 100, 110, 120, 51, 102, 153, 255]\<rparr>"

section \<open>Indices of the work buffer\<close>

lemma VARBUF_in_range:
  assumes "0 \<le> x" "x < padsize_x arg" "0 \<le> y" "y < padsize_y arg" "0 \<le> z" "z < padsize_z arg"
  shows "0 \<le> VARBUF arg z y x \<and> VARBUF arg z y x < sizeprod arg"
proof -
  let ?px = "padsize_x arg" and ?py = "padsize_y arg" and ?pz = "padsize_z arg"
  have px: "0 < ?px" and py: "0 < ?py" using assms by auto
  have 1: "y * ?px \<le> (?py - 1) * ?px"
    using assms px by (intro mult_right_mono) auto
  have 2: "z * (?px * ?py) \<le> (?pz - 1) * (?px * ?py)"
    using assms px py by (intro mult_right_mono) auto
  have 3: "0 \<le> y * ?px" "0 \<le> z * (?px * ?py)"
    using assms px py by auto
  have "VARBUF arg z y x = z * (?px * ?py) + y * ?px + x"
    by (simp add: VARBUF_def zst_def yst_def)
  moreover have "sizeprod arg = (?pz - 1) * (?px * ?py) + (?py - 1) * ?px + ?px"
    by (simp add: sizeprod_def algebra_simps)
  ultimately show ?thesis using 1 2 3 assms by linarith
qed

lemma win_bounds:
  assumes "0 \<le> avg_var_kernel_radius arg" "0 \<le> alpha_kernel_radius arg"
    and "0 \<le> x" "x < n"
  shows "0 \<le> win_low arg (kernel_radius arg) x \<and>
         win_low arg (kernel_radius arg) x < win_high arg (kernel_radius arg) x \<and>
         win_high arg (kernel_radius arg) x < n + kerneldim arg"
  using assms
  by (auto simp: win_low_def win_high_def kernel_radius_def kerneldim_def Let_def)

text \<open>
  C9. For radii that are not negative and a pixel \<open>(x, y, z)\<close> of the tile, every corner
  the extraction looks up lies inside the padded work buffer: \<open>x_low\<close> and \<open>x_high\<close>
  are in \<open>[0, padsize_x)\<close>, \<open>y_low\<close> and \<open>y_high\<close> in \<open>[0, padsize_y)\<close>, the plane
  (\<open>z_low\<close> and \<open>z_high\<close> when volumetric, plane 0 otherwise) in \<open>[0, padsize_z)\<close>, and
  the flat index \<open>VARBUF(z, y, x)\<close> of each corner in \<open>[0, sizeprod)\<close>. The buffer is
  padded by the larger of the two radii, and the corners are one alpha radius away
  from the pixel.
\<close>

theorem corner_lookups_inside_work_buffer:
  assumes "0 \<le> avg_var_kernel_radius arg" and "0 \<le> alpha_kernel_radius arg"
    and "0 \<le> x" and "x < size_x arg"
    and "0 \<le> y" and "y < size_y arg"
    and "0 \<le> z" and "z < size_z arg"
  shows "(\<forall>xc \<in> {win_low arg (kernel_radius_xy arg) x, win_high arg (kernel_radius_xy arg) x}.
           0 \<le> xc \<and> xc < padsize_x arg) \<and>
         (\<forall>yc \<in> {win_low arg (kernel_radius_xy arg) y, win_high arg (kernel_radius_xy arg) y}.
           0 \<le> yc \<and> yc < padsize_y arg) \<and>
         (\<forall>zc \<in> (if have_z arg
                  then {win_low arg (kernel_radius_z arg) z, win_high arg (kernel_radius_z arg) z}
                  else {0}).
           0 \<le> zc \<and> zc < padsize_z arg) \<and>
         (\<forall>xc \<in> {win_low arg (kernel_radius_xy arg) x, win_high arg (kernel_radius_xy arg) x}.
          \<forall>yc \<in> {win_low arg (kernel_radius_xy arg) y, win_high arg (kernel_radius_xy arg) y}.
          \<forall>zc \<in> (if have_z arg
                  then {win_low arg (kernel_radius_z arg) z, win_high arg (kernel_radius_z arg) z}
                  else {0}).
           0 \<le> VARBUF arg zc yc xc \<and> VARBUF arg zc yc xc < sizeprod arg)"
proof -
  have X: "\<forall>xc \<in> {win_low arg (kernel_radius_xy arg) x, win_high arg (kernel_radius_xy arg) x}.
           0 \<le> xc \<and> xc < padsize_x arg"
    using win_bounds[OF assms(1,2,3,4)] by (auto simp: kernel_radius_xy_def padsize_x_def)
  have Y: "\<forall>yc \<in> {win_low arg (kernel_radius_xy arg) y, win_high arg (kernel_radius_xy arg) y}.
           0 \<le> yc \<and> yc < padsize_y arg"
    using win_bounds[OF assms(1,2,5,6)] by (auto simp: kernel_radius_xy_def padsize_y_def)
  have Z: "\<forall>zc \<in> (if have_z arg
                  then {win_low arg (kernel_radius_z arg) z, win_high arg (kernel_radius_z arg) z}
                  else {0}).
           0 \<le> zc \<and> zc < padsize_z arg"
    using win_bounds[OF assms(1,2,7,8)] assms(7,8)
    by (auto simp: kernel_radius_z_def padsize_z_def)
  show ?thesis using X Y Z VARBUF_in_range by blast
qed

text \<open>
  At the only pixel of a 1x1 tile with radii 3 and 1: the buffer is 8 wide, the corners
  are 2 and 5, and the last corner has the flat index 45 of 64.
\<close>

theorem corner_lookups_inside_work_buffer_witness:
  "win_low (tile_2d image_dark_red 1 1 identity_swz 3 1 1 1) 3 0 = 2 \<and>
   win_high (tile_2d image_dark_red 1 1 identity_swz 3 1 1 1) 3 0 = 5 \<and>
   padsize_x (tile_2d image_dark_red 1 1 identity_swz 3 1 1 1) = 8 \<and>
   0 \<le> VARBUF (tile_2d image_dark_red 1 1 identity_swz 3 1 1 1) 0 5 5 \<and>
   VARBUF (tile_2d image_dark_red 1 1 identity_swz 3 1 1 1) 0 5 5
     < sizeprod (tile_2d image_dark_red 1 1 identity_swz 3 1 1 1)"
  using corner_lookups_inside_work_buffer
    [of "tile_2d image_dark_red 1 1 identity_swz 3 1 1 1" 0 0 0]
  by (simp add: tile_2d_def win_low_def win_high_def kernel_radius_xy_def kernel_radius_def
      padsize_x_def kerneldim_def)

section \<open>Correctness of the prefix sum\<close>

lemma bk_inner_apply:
  assumes "ofs < 0" and "- ofs < int os"
  shows "bk_inner m da ofs os k a =
           (if \<exists>j<k. a = da + int (j * os) then m a + m (a + ofs) else m a)"
  using assms
proof (induction k arbitrary: m da)
  case 0
  then show ?case by simp
next
  case (Suc k)
  define m1 where "m1 = m(da := m da + m (da + ofs))"
  define P where "P \<longleftrightarrow> (\<exists>j<k. a = da + int os + int (j * os))"
  define Q where "Q \<longleftrightarrow> (\<exists>j<Suc k. a = da + int (j * os))"
  have os: "0 < int os" using Suc.prems by linarith
  have IH: "bk_inner m1 (da + int os) ofs os k a = (if P then m1 a + m1 (a + ofs) else m1 a)"
    using Suc.IH[OF Suc.prems, of m1 "da + int os"] by (simp add: P_def)
  have L: "bk_inner m da ofs os (Suc k) a = bk_inner m1 (da + int os) ofs os k a"
    by (simp add: m1_def)
  have ex: "Q \<longleftrightarrow> (a = da \<or> P)"
    unfolding Q_def P_def
  proof
    assume "\<exists>j<Suc k. a = da + int (j * os)"
    then obtain j where j: "j < Suc k" "a = da + int (j * os)" by blast
    show "a = da \<or> (\<exists>j<k. a = da + int os + int (j * os))"
    proof (cases j)
      case 0
      then show ?thesis using j by simp
    next
      case (Suc j')
      then have "j' < k" "a = da + int os + int (j' * os)" using j by (auto simp: algebra_simps)
      then show ?thesis by blast
    qed
  next
    assume "a = da \<or> (\<exists>j<k. a = da + int os + int (j * os))"
    then show "\<exists>j<Suc k. a = da + int (j * os)"
    proof
      assume "a = da"
      then have "a = da + int (0 * os)" by simp
      then show ?thesis by blast
    next
      assume "\<exists>j<k. a = da + int os + int (j * os)"
      then obtain j where "j < k" "a = da + int os + int (j * os)" by blast
      then have "Suc j < Suc k" "a = da + int (Suc j * os)" by (auto simp: algebra_simps)
      then show ?thesis by blast
    qed
  qed
  have goal: "bk_inner m1 (da + int os) ofs os k a = (if Q then m a + m (a + ofs) else m a)"
  proof (cases "a = da")
    case True
    have "\<not> P"
      unfolding P_def
    proof
      assume "\<exists>j<k. a = da + int os + int (j * os)"
      then obtain j where "a = da + int os + int (j * os)" by blast
      moreover have "0 \<le> int (j * os)" by simp
      ultimately show False using True os by linarith
    qed
    moreover have "m1 a = m a + m (a + ofs)" using True by (simp add: m1_def)
    ultimately show ?thesis using IH ex True by simp
  next
    case False
    show ?thesis
    proof (cases P)
      case True
      then obtain j where j: "j < k" "a = da + int os + int (j * os)" unfolding P_def by blast
      have "0 \<le> int (j * os)" by simp
      then have "a + ofs \<noteq> da" using j Suc.prems by linarith
      then have "m1 a = m a" "m1 (a + ofs) = m (a + ofs)" using False by (simp_all add: m1_def)
      then show ?thesis using IH ex True by simp
    next
      case F2: False
      have "m1 a = m a" using False by (simp add: m1_def)
      then show ?thesis using IH ex False F2 by simp
    qed
  qed
  show ?case using L goal unfolding Q_def by simp
qed

lemma low_pow_dvd: "2 ^ l dvd m \<Longrightarrow> low_pow l m = 2 ^ l"
  by (cases l) auto

lemma up_pos:
  assumes "0 < K"
  shows "(\<exists>j < n div K. p = K - 1 + j * K) \<longleftrightarrow> (p < n \<and> K dvd Suc p)"
proof
  assume "\<exists>j < n div K. p = K - 1 + j * K"
  then obtain j where j: "j < n div K" "p = K - 1 + j * K" by blast
  have "Suc p = Suc j * K" using j assms by simp
  moreover have "Suc j * K \<le> n"
    using j(1) assms less_eq_div_iff_mult_less_eq[of K "Suc j" n] by simp
  ultimately show "p < n \<and> K dvd Suc p" by simp
next
  assume a: "p < n \<and> K dvd Suc p"
  then obtain q where q: "Suc p = K * q" by (auto simp: dvd_def)
  then have "q \<noteq> 0" by (cases q) auto
  then obtain j where j: "q = Suc j" by (cases q) auto
  have "Suc j * K \<le> n" using a q j by (simp add: mult.commute)
  then have "j < n div K" using assms less_eq_div_iff_mult_less_eq[of K "Suc j" n] by simp
  moreover have "p = K - 1 + j * K" using q j assms by (cases K) (simp_all add: mult.commute)
  ultimately show "\<exists>j < n div K. p = K - 1 + j * K" by blast
qed

lemma two_pow_dvd_ge:
  assumes "(2::nat) ^ Suc l dvd q" "0 < q"
  shows "2 ^ l + 2 ^ l \<le> q" "(2::nat) ^ l dvd q" "(2::nat) ^ l dvd q - 2 ^ l"
proof -
  have "(2::nat) ^ Suc l \<le> q" using assms by (simp add: dvd_imp_le)
  then show "(2::nat) ^ l + 2 ^ l \<le> q" by simp
  show d: "(2::nat) ^ l dvd q" using assms(1) by (metis dvd_mult_right power_Suc)
  show "(2::nat) ^ l dvd q - 2 ^ l" using d by simp
qed

lemma up_step:
  fixes v :: "nat \<Rightarrow> 'a::comm_monoid_add"
  assumes inv: "up_inv l v c n"
    and c': "\<And>q. 0 < q \<Longrightarrow> q \<le> n \<Longrightarrow>
               c' (q - 1) = (if 2 ^ Suc l dvd q then c (q - 1) + c (q - 1 - 2 ^ l) else c (q - 1))"
  shows "up_inv (Suc l) v c' n"
  unfolding up_inv_def
proof (intro allI impI)
  fix q :: nat assume q: "0 < q" "q \<le> n"
  show "c' (q - 1) = sum v {q - low_pow (Suc l) q..<q}"
  proof (cases "(2::nat) ^ Suc l dvd q")
    case True
    note f = two_pow_dvd_ge[OF True q(1)]
    have c1: "c (q - 1) = sum v {q - 2 ^ l..<q}"
      using inv q low_pow_dvd[OF f(2)] by (simp add: up_inv_def)
    have q2: "0 < q - 2 ^ l" "q - 2 ^ l \<le> n" "q - 1 - 2 ^ l = q - 2 ^ l - 1"
      using f(1) q by auto
    have "c (q - 2 ^ l - 1) = sum v {q - 2 ^ l - low_pow l (q - 2 ^ l)..<q - 2 ^ l}"
      using inv[unfolded up_inv_def, rule_format, OF q2(1,2)] .
    then have c2: "c (q - 1 - 2 ^ l) = sum v {q - 2 ^ l - 2 ^ l..<q - 2 ^ l}"
      unfolding q2(3) low_pow_dvd[OF f(3)] .
    have "sum v {q - 2 ^ l - 2 ^ l..<q - 2 ^ l} + sum v {q - 2 ^ l..<q}
            = sum v {q - 2 ^ l - 2 ^ l..<q}"
      by (rule sum.atLeastLessThan_concat) auto
    then have "c (q - 1) + c (q - 1 - 2 ^ l) = sum v {q - 2 * 2 ^ l..<q}"
      using c1 c2 by (simp add: add.commute mult_2)
    then show ?thesis using c'[OF q] True by simp
  next
    case False
    then show ?thesis using c'[OF q] inv q by (simp add: up_inv_def)
  qed
qed

lemma up_inv_0: "up_inv 0 v v n"
  unfolding up_inv_def
proof (intro allI impI)
  fix q :: nat assume "0 < q" "q \<le> n"
  then obtain k where "q = Suc k" by (cases q) auto
  then show "v (q - 1) = sum v {q - low_pow 0 q..<q}" by simp
qed

lemma up_to_down:
  assumes "up_inv l v c n" "n < 2 ^ Suc l"
  shows "down_inv l v c n"
  unfolding down_inv_def
proof (intro allI impI)
  fix q :: nat assume q: "0 < q" "q \<le> n"
  have c: "c (q - 1) = sum v {q - low_pow l q..<q}"
    using assms(1) q by (simp add: up_inv_def)
  show "c (q - 1) = (if 2 ^ l dvd q then sum v {0..<q} else sum v {q - low_pow l q..<q})"
  proof (cases "(2::nat) ^ l dvd q")
    case True
    then obtain k where k: "q = 2 ^ l * k" by (auto simp: dvd_def)
    have "k < 2" using k q assms(2) by (cases "k < 2") (auto simp: not_less dest!: mult_le_mono2[of 2 k "2 ^ l"])
    then have "k = 1" using k q by (cases k) auto
    then have "q = 2 ^ l" using k by simp
    then show ?thesis using c low_pow_dvd[OF True] True by simp
  next
    case False
    then show ?thesis using c by simp
  qed
qed

lemma odd_multiple:
  assumes "(2::nat) ^ k dvd q" "\<not> 2 ^ Suc k dvd q" "q \<noteq> 2 ^ k" "0 < q"
  shows "2 ^ k < q" "(2::nat) ^ Suc k dvd q - 2 ^ k"
proof -
  obtain t where t: "q = 2 ^ k * t" using assms(1) by (auto simp: dvd_def)
  have "odd t" using assms(2) t by auto
  then obtain u where u: "t = Suc (2 * u)" by (auto elim: oddE)
  have "u \<noteq> 0" using assms(3) t u by auto
  then show "2 ^ k < q" using t u by (cases u) auto
  have "q - 2 ^ k = 2 ^ Suc k * u" using t u by (simp add: algebra_simps)
  then show "(2::nat) ^ Suc k dvd q - 2 ^ k" by simp
qed

lemma down_step:
  fixes v :: "nat \<Rightarrow> 'a::comm_monoid_add"
  assumes inv: "down_inv (Suc k) v c n"
    and c': "\<And>q. 0 < q \<Longrightarrow> q \<le> n \<Longrightarrow>
               c' (q - 1) = (if 2 ^ k dvd q \<and> \<not> 2 ^ Suc k dvd q \<and> q \<noteq> 2 ^ k
                             then c (q - 1) + c (q - 1 - 2 ^ k) else c (q - 1))"
  shows "down_inv k v c' n"
  unfolding down_inv_def
proof (intro allI impI)
  fix q :: nat assume q: "0 < q" "q \<le> n"
  have cq: "c (q - 1) = (if 2 ^ Suc k dvd q then sum v {0..<q} else sum v {q - low_pow (Suc k) q..<q})"
    using inv[unfolded down_inv_def, rule_format, OF q] .
  show "c' (q - 1) = (if 2 ^ k dvd q then sum v {0..<q} else sum v {q - low_pow k q..<q})"
  proof (cases "(2::nat) ^ k dvd q")
    case d: True
    show ?thesis
    proof (cases "(2::nat) ^ Suc k dvd q")
      case True
      then show ?thesis using c'[OF q] cq d by simp
    next
      case nd: False
      show ?thesis
      proof (cases "q = 2 ^ k")
        case True
        have "low_pow k q = 2 ^ k" using low_pow_dvd[OF d] .
        then show ?thesis using c'[OF q] cq d nd True by simp
      next
        case False
        note f = odd_multiple[OF d nd False q(1)]
        have c1: "c (q - 1) = sum v {q - 2 ^ k..<q}"
          using cq nd low_pow_dvd[OF d] by simp
        have q2: "0 < q - 2 ^ k" "q - 2 ^ k \<le> n" "q - 1 - 2 ^ k = q - 2 ^ k - 1"
          using f(1) q by auto
        have "c (q - 2 ^ k - 1) = (if 2 ^ Suc k dvd q - 2 ^ k then sum v {0..<q - 2 ^ k}
                 else sum v {q - 2 ^ k - low_pow (Suc k) (q - 2 ^ k)..<q - 2 ^ k})"
          using inv[unfolded down_inv_def, rule_format, OF q2(1,2)] .
        then have c2: "c (q - 1 - 2 ^ k) = sum v {0..<q - 2 ^ k}"
          unfolding q2(3) using f(2) by simp
        have "sum v {0..<q - 2 ^ k} + sum v {q - 2 ^ k..<q} = sum v {0..<q}"
          by (rule sum.atLeastLessThan_concat) auto
        then have "c (q - 1) + c (q - 1 - 2 ^ k) = sum v {0..<q}"
          using c1 c2 by (simp add: add.commute)
        then show ?thesis using c'[OF q] d nd False by simp
      qed
    qed
  next
    case False
    then have "\<not> (2::nat) ^ Suc k dvd q" by (metis dvd_mult_right power_Suc)
    then show ?thesis using c'[OF q] cq False by simp
  qed
qed

lemma down_inv_0:
  assumes "down_inv 0 v c n" "p < n"
  shows "c p = sum v {..p}"
proof -
  have "c (Suc p - 1) = sum v {0..<Suc p}"
    using assms(1)[unfolded down_inv_def, rule_format, of "Suc p"] assms(2) by simp
  then show ?thesis by (simp add: atLeast0LessThan lessThan_Suc_atMost)
qed

lemma down_pos:
  assumes "0 < step" "step \<le> n"
  shows "(\<exists>j < (n - step) div (2 * step). p = step + 2 * step - 1 + j * (2 * step)) \<longleftrightarrow>
         (p < n \<and> step dvd Suc p \<and> \<not> 2 * step dvd Suc p \<and> Suc p \<noteq> step)"
proof
  assume "\<exists>j < (n - step) div (2 * step). p = step + 2 * step - 1 + j * (2 * step)"
  then obtain j where j: "j < (n - step) div (2 * step)" "p = step + 2 * step - 1 + j * (2 * step)"
    by blast
  have sp: "Suc p = step * (3 + 2 * j)" using j(2) assms(1) by (simp add: algebra_simps)
  have "Suc j * (2 * step) \<le> n - step"
    using j(1) assms less_eq_div_iff_mult_less_eq[of "2 * step" "Suc j" "n - step"] by simp
  then have "Suc p \<le> n" using sp assms by (simp add: algebra_simps)
  moreover have "\<not> 2 * step dvd Suc p"
  proof
    assume "2 * step dvd Suc p"
    then have "step * 2 dvd step * (3 + 2 * j)" using sp by (simp add: mult.commute)
    then have "2 dvd 3 + 2 * j" using assms(1) by simp
    then show False by presburger
  qed
  moreover have "Suc p \<noteq> step" using sp assms(1) by simp
  ultimately show "p < n \<and> step dvd Suc p \<and> \<not> 2 * step dvd Suc p \<and> Suc p \<noteq> step"
    using sp by simp
next
  assume a: "p < n \<and> step dvd Suc p \<and> \<not> 2 * step dvd Suc p \<and> Suc p \<noteq> step"
  then obtain t where t: "Suc p = step * t" by (auto simp: dvd_def)
  have "odd t"
  proof
    assume "even t"
    then have "2 * step dvd step * t" by (auto simp: mult.commute)
    then show False using a t by simp
  qed
  then obtain u where u: "t = Suc (2 * u)" by (auto elim: oddE)
  have "u \<noteq> 0" using a t u by auto
  then obtain j where ju: "u = Suc j" by (cases u) auto
  have sp: "Suc p = step * (3 + 2 * j)" using t u ju by (simp add: algebra_simps)
  then have "Suc j * (2 * step) \<le> n - step" using a assms by (simp add: algebra_simps)
  then have "j < (n - step) div (2 * step)"
    using assms less_eq_div_iff_mult_less_eq[of "2 * step" "Suc j" "n - step"] by simp
  moreover have "p = step + 2 * step - 1 + j * (2 * step)"
    using sp assms(1) by (cases step) (simp_all add: algebra_simps)
  ultimately show "\<exists>j < (n - step) div (2 * step). p = step + 2 * step - 1 + j * (2 * step)"
    by blast
qed

lemma bk_pass_on_line:
  assumes "0 < s" "0 < step" "step < inc" "step \<le> start"
  shows "bk_inner m (d + int (start * s)) (- int (step * s)) (inc * s) k (d + int (p * s)) =
           (if \<exists>j<k. p = start + j * inc
            then m (d + int (p * s)) + m (d + int ((p - step) * s))
            else m (d + int (p * s)))"
proof -
  have 1: "- int (step * s) < 0" using assms by simp
  have 2: "- (- int (step * s)) < int (inc * s)" using assms by simp
  have eq: "(\<exists>j<k. d + int (p * s) = d + int (start * s) + int (j * (inc * s))) \<longleftrightarrow>
            (\<exists>j<k. p = start + j * inc)"
  proof -
    have "\<And>j. d + int (p * s) = d + int (start * s) + int (j * (inc * s)) \<longleftrightarrow> p = start + j * inc"
    proof -
      fix j
      have "d + int (p * s) = d + int (start * s) + int (j * (inc * s)) \<longleftrightarrow>
            int (p * s) = int ((start + j * inc) * s)"
        by (simp add: algebra_simps)
      also have "\<dots> \<longleftrightarrow> p * s = (start + j * inc) * s" by (simp only: int_int_eq)
      also have "\<dots> \<longleftrightarrow> p = start + j * inc" using assms(1) by simp
      finally show "d + int (p * s) = d + int (start * s) + int (j * (inc * s)) \<longleftrightarrow> p = start + j * inc" .
    qed
    then show ?thesis by simp
  qed
  define W where "W \<longleftrightarrow> (\<exists>j<k. p = start + j * inc)"
  have G: "bk_inner m (d + int (start * s)) (- int (step * s)) (inc * s) k (d + int (p * s)) =
           (if W then m (d + int (p * s)) + m (d + int (p * s) + - int (step * s))
            else m (d + int (p * s)))"
    unfolding bk_inner_apply[OF 1 2] eq W_def ..
  have H: "bk_inner m (d + int (start * s)) (- int (step * s)) (inc * s) k (d + int (p * s)) =
           (if W then m (d + int (p * s)) + m (d + int ((p - step) * s))
            else m (d + int (p * s)))"
  proof (cases W)
    case True
    then have "step \<le> p" using assms(4) unfolding W_def by auto
    then have "d + int (p * s) + - int (step * s) = d + int ((p - step) * s)"
      by (simp add: algebra_simps)
    then show ?thesis using G by (simp only:)
  next
    case False
    then show ?thesis using G by (simp only: if_False)
  qed
  show ?thesis using H unfolding W_def .
qed

lemma bk_pass_frame:
  assumes "0 < s" "0 < step" "step < inc"
    and "\<And>j. j < k \<Longrightarrow> a \<noteq> d + int ((start + j * inc) * s)"
  shows "bk_inner m (d + int (start * s)) (- int (step * s)) (inc * s) k a = m a"
proof -
  have 1: "- int (step * s) < 0" using assms by simp
  have 2: "- (- int (step * s)) < int (inc * s)" using assms by simp
  have "\<not> (\<exists>j<k. a = d + int (start * s) + int (j * (inc * s)))"
  proof
    assume "\<exists>j<k. a = d + int (start * s) + int (j * (inc * s))"
    then obtain j where "j < k" "a = d + int (start * s) + int (j * (inc * s))" by blast
    then have "j < k" "a = d + int ((start + j * inc) * s)" by (simp_all add: algebra_simps)
    then show False using assms(4) by blast
  qed
  then show ?thesis unfolding bk_inner_apply[OF 1 2] by (simp only: if_False)
qed

lemma reduce_pass:
  fixes m :: "int \<Rightarrow> 'a::comm_monoid_add"
  assumes s: "0 < s" and inv: "up_inv l v (line m d s) n"
    and K: "K = 2 ^ Suc l" and h: "h = 2 ^ l"
  defines "m' \<equiv> bk_inner m (d + int ((K - 1) * s)) (- int (h * s)) (K * s) (n div K)"
  shows "up_inv (Suc l) v (line m' d s) n" and "\<not> on_line d s n a \<Longrightarrow> m' a = m a"
proof -
  have st: "0 < h" "h < K" "h \<le> K - 1" and K0: "0 < K"
    unfolding K h by auto
  show "up_inv (Suc l) v (line m' d s) n"
  proof (rule up_step[OF inv])
    fix q :: nat assume q: "0 < q" "q \<le> n"
    have e: "Suc (q - 1) = q" "q - 1 < n" using q by auto
    have pos: "(\<exists>j < n div K. q - 1 = K - 1 + j * K) \<longleftrightarrow> K dvd q"
      using up_pos[OF K0, of n "q - 1"] e by auto
    have "line m' d s (q - 1) =
            (if K dvd q then line m d s (q - 1) + line m d s (q - 1 - h)
             else line m d s (q - 1))"
      unfolding line_def m'_def bk_pass_on_line[OF s st] pos ..
    then show "line m' d s (q - 1) =
            (if 2 ^ Suc l dvd q then line m d s (q - 1) + line m d s (q - 1 - 2 ^ l)
             else line m d s (q - 1))"
      unfolding K h .
  qed
  assume off: "\<not> on_line d s n a"
  show "m' a = m a"
    unfolding m'_def
  proof (rule bk_pass_frame[OF s st(1,2)])
    fix j assume "j < n div K"
    then have "K - 1 + j * K < n"
      using up_pos[OF K0, of n "K - 1 + j * K"] by blast
    then show "a \<noteq> d + int ((K - 1 + j * K) * s)"
      using off unfolding on_line_def by blast
  qed
qed

lemma bk_reduce_unfold:
  assumes "0 < lc"
  shows "bk_reduce m d n s lc l =
     (let m' = bk_inner m (d + int ((lc - 1) * s)) (- int (lc div 2 * s)) (2 ^ l * s) (n div 2 ^ l)
      in if 2 * lc \<le> n then bk_reduce m' d n s (2 * lc) (Suc l) else (m', 2 * lc, Suc l))"
proof -
  obtain c where c: "lc = Suc c" using assms by (cases lc) auto
  show ?thesis
    unfolding c
    by (subst bk_reduce.simps(2))
      (simp add: Let_def drop_bit_eq_div push_bit_eq_mult mult.commute)
qed

lemma bk_reduce_correct:
  fixes m :: "int \<Rightarrow> 'a::comm_monoid_add"
  assumes s: "0 < s"
  shows "up_inv l v (line m d s) n \<Longrightarrow> \<forall>a. \<not> on_line d s n a \<longrightarrow> m a = m0 a \<Longrightarrow>
         2 ^ Suc l \<le> n \<Longrightarrow>
         \<exists>L m'. bk_reduce m d n s (2 ^ Suc l) (Suc l) = (m', 2 ^ Suc (Suc L), Suc (Suc L)) \<and>
                2 ^ Suc L \<le> n \<and> n < 2 ^ Suc (Suc L) \<and>
                up_inv (Suc L) v (line m' d s) n \<and> (\<forall>a. \<not> on_line d s n a \<longrightarrow> m' a = m0 a)"
proof (induction "n - 2 ^ Suc l" arbitrary: l m rule: less_induct)
  case less
  define K :: nat where "K = 2 ^ Suc l"
  define h :: nat where "h = 2 ^ l"
  have Kh: "K = 2 * h" "0 < h" "0 < K" "K div 2 = h" "2 * K = 2 ^ Suc (Suc l)"
    unfolding K_def h_def by auto
  define m' where "m' = bk_inner m (d + int ((K - 1) * s)) (- int (h * s)) (K * s) (n div K)"
  have inv': "up_inv (Suc l) v (line m' d s) n"
    unfolding m'_def by (rule reduce_pass(1)[OF s less.prems(1) K_def h_def])
  have fr': "\<forall>a. \<not> on_line d s n a \<longrightarrow> m' a = m0 a"
    unfolding m'_def using reduce_pass(2)[OF s less.prems(1) K_def h_def] less.prems(2) by simp
  have unf: "bk_reduce m d n s (2 ^ Suc l) (Suc l) =
          (if 2 ^ Suc (Suc l) \<le> n then bk_reduce m' d n s (2 ^ Suc (Suc l)) (Suc (Suc l))
           else (m', 2 ^ Suc (Suc l), Suc (Suc l)))"
    using bk_reduce_unfold[OF Kh(3), of m d n s "Suc l"]
    unfolding Let_def Kh(4) Kh(5) K_def[symmetric] m'_def[symmetric] .
  show ?case
  proof (cases "2 ^ Suc (Suc l) \<le> n")
    case True
    have "2 * K \<le> n" using True Kh by simp
    then have "n - 2 * K < n - K" using Kh by linarith
    then have "n - 2 ^ Suc (Suc l) < n - 2 ^ Suc l" unfolding Kh(5)[symmetric] K_def .
    from less.hyps[OF this inv' fr' True]
    show ?thesis unfolding unf using True by (simp only: if_True)
  next
    case False
    have "bk_reduce m d n s (2 ^ Suc l) (Suc l) = (m', 2 ^ Suc (Suc l), Suc (Suc l))"
      unfolding unf using False by (simp only: if_False)
    moreover have "n < 2 ^ Suc (Suc l)" using False by simp
    ultimately show ?thesis using less.prems(3) inv' fr' by blast
  qed
qed

lemma expand_pass:
  fixes m :: "int \<Rightarrow> 'a::comm_monoid_add"
  assumes s: "0 < s" and inv: "down_inv (Suc k) v (line m d s) n"
    and K: "K = 2 ^ Suc k" and h: "h = 2 ^ k" and n: "K \<le> n"
  defines "m' \<equiv> bk_inner m (d + int ((h + K - 1) * s)) (- int (h * s)) (K * s) ((n - h) div K)"
  shows "down_inv k v (line m' d s) n" and "\<not> on_line d s n a \<Longrightarrow> m' a = m a"
proof -
  have st: "0 < h" "h < K" "h \<le> h + K - 1" and K2: "K = 2 * h" and hn: "h \<le> n"
    using n unfolding K h by auto
  show "down_inv k v (line m' d s) n"
  proof (rule down_step[OF inv])
    fix q :: nat assume q: "0 < q" "q \<le> n"
    have e: "Suc (q - 1) = q" "q - 1 < n" using q by auto
    have pos: "(\<exists>j < (n - h) div K. q - 1 = h + K - 1 + j * K) \<longleftrightarrow>
               (h dvd q \<and> \<not> K dvd q \<and> q \<noteq> h)"
      using down_pos[OF st(1) hn, of "q - 1"] e unfolding K2 by auto
    have "line m' d s (q - 1) =
            (if h dvd q \<and> \<not> K dvd q \<and> q \<noteq> h
             then line m d s (q - 1) + line m d s (q - 1 - h) else line m d s (q - 1))"
      unfolding line_def m'_def bk_pass_on_line[OF s st] pos ..
    then show "line m' d s (q - 1) =
            (if 2 ^ k dvd q \<and> \<not> 2 ^ Suc k dvd q \<and> q \<noteq> 2 ^ k
             then line m d s (q - 1) + line m d s (q - 1 - 2 ^ k) else line m d s (q - 1))"
      unfolding K h .
  qed
  assume off: "\<not> on_line d s n a"
  show "m' a = m a"
    unfolding m'_def
  proof (rule bk_pass_frame[OF s st(1,2)])
    fix j assume "j < (n - h) div K"
    then have "h + K - 1 + j * K < n"
      using down_pos[OF st(1) hn, of "h + K - 1 + j * K"] unfolding K2 by blast
    then show "a \<noteq> d + int ((h + K - 1 + j * K) * s)"
      using off unfolding on_line_def by blast
  qed
qed

lemma bk_expand_unfold:
  "bk_expand m d n s lc l =
     (let m' = bk_inner m (d + int ((lc div 2 div 2 + lc div 2 - 1) * s))
                 (- int (lc div 2 div 2 * s)) (2 ^ (l - 1) * s)
                 ((n - lc div 2 div 2) div 2 ^ (l - 1))
      in if lc div 2 > 2 then bk_expand m' d n s (lc div 2) (l - 1) else m')"
  by (subst bk_expand.simps) (simp add: Let_def drop_bit_eq_div push_bit_eq_mult mult.commute)

lemma bk_expand_correct:
  fixes m :: "int \<Rightarrow> 'a::comm_monoid_add"
  assumes s: "0 < s"
  shows "down_inv (Suc k) v (line m d s) n \<Longrightarrow> \<forall>a. \<not> on_line d s n a \<longrightarrow> m a = m0 a \<Longrightarrow>
         2 ^ Suc k \<le> n \<Longrightarrow>
         down_inv 0 v (line (bk_expand m d n s (2 ^ Suc (Suc k)) (Suc (Suc k))) d s) n \<and>
         (\<forall>a. \<not> on_line d s n a \<longrightarrow> bk_expand m d n s (2 ^ Suc (Suc k)) (Suc (Suc k)) a = m0 a)"
proof (induction k arbitrary: m)
  case 0
  define m' where "m' = bk_inner m (d + int ((1 + 2 - 1) * s)) (- int (1 * s)) (2 * s) ((n - 1) div 2)"
  have inv': "down_inv 0 v (line m' d s) n"
    unfolding m'_def using expand_pass(1)[OF s "0.prems"(1), of 2 1] "0.prems"(3) by simp
  have fr': "\<forall>a. \<not> on_line d s n a \<longrightarrow> m' a = m0 a"
    unfolding m'_def using expand_pass(2)[OF s "0.prems"(1), of 2 1] "0.prems"(2,3) by simp
  have "bk_expand m d n s (2 ^ Suc (Suc 0)) (Suc (Suc 0)) = m'"
    unfolding bk_expand_unfold[of m d n s "2 ^ Suc (Suc 0)"] m'_def by (simp add: Let_def)
  then show ?case using inv' fr' by simp
next
  case (Suc k)
  define K :: nat where "K = 2 ^ Suc (Suc k)"
  define h :: nat where "h = 2 ^ Suc k"
  have "(1::nat) \<le> 2 ^ k" by simp
  then have "(2::nat) < 2 * (2 * 2 ^ k)" by linarith
  then have Kh: "2 ^ Suc (Suc (Suc k)) div 2 = K" "K div 2 = h" "2 < K" "Suc (Suc (Suc k)) - 1 = Suc (Suc k)"
    unfolding K_def h_def by auto
  define m' where "m' = bk_inner m (d + int ((h + K - 1) * s)) (- int (h * s)) (K * s) ((n - h) div K)"
  have Kn: "K \<le> n" using Suc.prems(3) unfolding K_def .
  have inv': "down_inv (Suc k) v (line m' d s) n"
    unfolding m'_def by (rule expand_pass(1)[OF s Suc.prems(1) K_def h_def Kn])
  have fr': "\<forall>a. \<not> on_line d s n a \<longrightarrow> m' a = m0 a"
    unfolding m'_def using expand_pass(2)[OF s Suc.prems(1) K_def h_def Kn] Suc.prems(2) by simp
  have n': "2 ^ Suc k \<le> n" using Kn unfolding K_def by simp
  have unf: "bk_expand m d n s (2 ^ Suc (Suc (Suc k))) (Suc (Suc (Suc k))) =
             bk_expand m' d n s (2 ^ Suc (Suc k)) (Suc (Suc k))"
    using bk_expand_unfold[of m d n s "2 ^ Suc (Suc (Suc k))" "Suc (Suc (Suc k))"] Kh(3)
    unfolding Kh(1) Kh(2) Kh(4) Let_def K_def[symmetric] m'_def[symmetric]
    by (simp only: if_True K_def)
  show ?case unfolding unf by (rule Suc.IH[OF inv' fr' n'])
qed

lemma brent_kung_line:
  fixes m :: "int \<Rightarrow> 'a::comm_monoid_add"
  assumes s: "0 < s"
  shows "down_inv 0 (line m d s) (line (brent_kung_prefix_sum m d n s) d s) n \<and>
         (\<forall>a. \<not> on_line d s n a \<longrightarrow> brent_kung_prefix_sum m d n s a = m a)"
proof (cases "n < 2")
  case True
  have "down_inv 0 (line m d s) (line m d s) n"
    unfolding down_inv_def
  proof (intro allI impI)
    fix q :: nat assume "0 < q" "q \<le> n"
    then have "q = 1" using True by simp
    then show "line m d s (q - 1) =
        (if 2 ^ 0 dvd q then sum (line m d s) {0..<q}
         else sum (line m d s) {q - low_pow 0 q..<q})" by simp
  qed
  then show ?thesis using True by (simp add: brent_kung_prefix_sum_def)
next
  case False
  then have n2: "2 ^ Suc 0 \<le> n" by simp
  have fr0: "\<forall>a. \<not> on_line d s n a \<longrightarrow> m a = m a" by simp
  obtain L m' where r: "bk_reduce m d n s (2 ^ Suc 0) (Suc 0) = (m', 2 ^ Suc (Suc L), Suc (Suc L))"
    and b: "2 ^ Suc L \<le> n" "n < 2 ^ Suc (Suc L)"
    and u: "up_inv (Suc L) (line m d s) (line m' d s) n"
    and f: "\<forall>a. \<not> on_line d s n a \<longrightarrow> m' a = m a"
    using bk_reduce_correct[OF s up_inv_0 fr0 n2] by blast
  have dn: "down_inv (Suc L) (line m d s) (line m' d s) n"
    by (rule up_to_down[OF u b(2)])
  have "brent_kung_prefix_sum m d n s = bk_expand m' d n s (2 ^ Suc (Suc L)) (Suc (Suc L))"
    using False r by (simp add: brent_kung_prefix_sum_def)
  then show ?thesis using bk_expand_correct[OF s dn f b(1)] by simp
qed

text \<open>The two facts about one call that the summed-area tables are built from.\<close>

lemma brent_kung_sum_at:
  fixes m :: "int \<Rightarrow> 'a::comm_monoid_add"
  assumes "0 < s" "i < n"
  shows "brent_kung_prefix_sum m d n s (d + int (i * s)) = (\<Sum>k\<le>i. m (d + int (k * s)))"
  using down_inv_0[OF conjunct1[OF brent_kung_line[OF assms(1), of m d n]] assms(2)]
  by (simp add: line_def)

lemma brent_kung_frame:
  fixes m :: "int \<Rightarrow> 'a::comm_monoid_add"
  assumes "0 < s" "\<not> on_line d s n a"
  shows "brent_kung_prefix_sum m d n s a = m a"
  using conjunct2[OF brent_kung_line[OF assms(1), of m d n]] assms(2) by simp

text \<open>
  C3. For every number of items, every stride of at least 1 and every memory,
  \<open>brent_kung_prefix_sum\<close> leaves in element \<open>i\<close> of the strided sequence (the
  address \<open>d + i * stride\<close>) the sum of the original elements \<open>0..i\<close>, for every
  \<open>i\<close> below \<open>items\<close>; it changes no address outside the sequence; and it changes
  nothing when \<open>items < 2\<close>. The arithmetic is exact: the elements are of any
  commutative monoid, as \<open>float4\<close> over the reals is.
\<close>

theorem brent_kung_prefix_sum_is_prefix_sum:
  fixes m :: "int \<Rightarrow> 'a::comm_monoid_add"
  assumes "1 \<le> stride"
  shows "(\<forall>i<items. brent_kung_prefix_sum m d items stride (d + int (i * stride)) =
                    (\<Sum>k\<le>i. m (d + int (k * stride)))) \<and>
         (\<forall>a. (\<forall>i<items. a \<noteq> d + int (i * stride)) \<longrightarrow>
              brent_kung_prefix_sum m d items stride a = m a) \<and>
         (items < 2 \<longrightarrow> brent_kung_prefix_sum m d items stride = m)"
proof -
  have s: "0 < stride" using assms by simp
  note L = brent_kung_line[OF s, of m d items]
  have 1: "\<forall>i<items. brent_kung_prefix_sum m d items stride (d + int (i * stride)) =
                    (\<Sum>k\<le>i. m (d + int (k * stride)))"
    using down_inv_0[OF conjunct1[OF L]] by (simp add: line_def)
  have 2: "\<forall>a. (\<forall>i<items. a \<noteq> d + int (i * stride)) \<longrightarrow>
              brent_kung_prefix_sum m d items stride a = m a"
    using conjunct2[OF L] by (auto simp: on_line_def)
  show ?thesis using 1 2 by (simp add: brent_kung_prefix_sum_def)
qed

text \<open>
  Five items at stride 2 from address 10, each holding its own address: item 3 ends
  as \<open>10 + 12 + 14 + 16\<close>, and address 11, between two items, keeps its value.
\<close>

theorem brent_kung_prefix_sum_is_prefix_sum_witness:
  "(1::nat) \<le> 2 \<and>
   brent_kung_prefix_sum (\<lambda>a. real_of_int a) 10 5 2 (10 + int (3 * 2)) = 10 + 12 + 14 + 16 \<and>
   brent_kung_prefix_sum (\<lambda>a. real_of_int a) 10 5 2 11 = 11"
proof -
  have h: "(1::nat) \<le> 2" by simp
  note T = brent_kung_prefix_sum_is_prefix_sum [OF h, of 5 "\<lambda>a. real_of_int a" 10]
  have A: "brent_kung_prefix_sum (\<lambda>a. real_of_int a) 10 5 2 (10 + int (3 * 2)) =
             (\<Sum>k\<le>3. real_of_int (10 + int (k * 2)))"
    using conjunct1[OF T, rule_format, of 3] by simp
  have "\<forall>i<5. (11::int) \<noteq> 10 + int (i * 2)" by presburger
  then have B: "brent_kung_prefix_sum (\<lambda>a. real_of_int a) 10 5 2 11 = 11"
    using conjunct1[OF conjunct2[OF T], rule_format, of 11] by simp
  have "(\<Sum>k\<le>3. real_of_int (10 + int (k * 2))) = 10 + 12 + 14 + 16"
    by (simp add: eval_nat_numeral)
  then show ?thesis using A B by simp
qed

section \<open>Loops as folds\<close>

lemma fold_opt_guarded:
  assumes "\<And>k s. k \<in> set ks \<Longrightarrow> f k s = (if c k then Some (g k s) else None)"
  shows "fold_opt f ks s = (if \<forall>k\<in>set ks. c k then Some (fold g ks s) else None)"
  using assms by (induction ks arbitrary: s) auto

lemma fold_product:
  "fold (\<lambda>z. fold (f z) ys) zs s = fold (\<lambda>(z, y). f z y) (List.product zs ys) s"
  by (induction zs arbitrary: s) (simp_all add: fold_map comp_def)

lemma fold_upd_other:
  "a \<notin> key ` set ks \<Longrightarrow> fold (\<lambda>k m. m(key k := val k)) ks m a = m a"
  by (induction ks arbitrary: m) auto

lemma fold_upd_apply:
  assumes "inj_on key (set ks)" "k \<in> set ks"
  shows "fold (\<lambda>k m. m(key k := val k)) ks m (key k) = val k"
  using assms
proof (induction ks arbitrary: m rule: rev_induct)
  case Nil
  then show ?case by simp
next
  case (snoc k' ks)
  show ?case
  proof (cases "key k = key k'")
    case True
    then have "k = k'" using snoc.prems by (auto simp: inj_on_def)
    then show ?thesis by simp
  next
    case False
    then have "k \<in> set ks" using snoc.prems by auto
    moreover have "inj_on key (set ks)" using snoc.prems(1) by (auto simp: inj_on_def)
    ultimately show ?thesis using snoc.IH False by simp
  qed
qed

lemma fold_both:
  assumes "\<And>k vb. f k vb = (f1 k (fst vb), f2 k (snd vb))"
  shows "fold f ks vb = (fold f1 ks (fst vb), fold f2 ks (snd vb))"
  by (induction ks arbitrary: vb) (simp_all add: assms)

lemma fold_fill_const:
  assumes "\<And>k m a. k \<in> set ks \<Longrightarrow> f k m a = (if a \<in> S k then c else m a)"
  shows "fold f ks m a = (if a \<in> (\<Union>k\<in>set ks. S k) then c else m a)"
  using assms by (induction ks arbitrary: m) auto

lemma VARBUF_inj:
  assumes "0 \<le> x" "x < padsize_x arg" "0 \<le> x'" "x' < padsize_x arg"
    and "0 \<le> y" "y < padsize_y arg" "0 \<le> y'" "y' < padsize_y arg"
    and "VARBUF arg z y x = VARBUF arg z' y' x'"
  shows "x = x' \<and> y = y' \<and> z = z'"
proof -
  let ?px = "padsize_x arg" and ?py = "padsize_y arg"
  have e: "(z * ?py + y) * ?px + x = (z' * ?py + y') * ?px + x'"
    using assms(9) by (simp add: VARBUF_def zst_def yst_def algebra_simps)
  have "((z * ?py + y) * ?px + x) mod ?px = x" "((z' * ?py + y') * ?px + x') mod ?px = x'"
    using assms by simp_all
  then have x: "x = x'" using e by simp
  have "((z * ?py + y) * ?px + x) div ?px = z * ?py + y"
       "((z' * ?py + y') * ?px + x') div ?px = z' * ?py + y'"
    using assms by simp_all
  then have e2: "z * ?py + y = z' * ?py + y'" using e by simp
  have "(z * ?py + y) mod ?py = y" "(z' * ?py + y') mod ?py = y'"
    using assms by simp_all
  then have y: "y = y'" using e2 by simp
  have "(z * ?py + y) div ?py = z" "(z' * ?py + y') div ?py = z'"
    using assms by simp_all
  then have "z = z'" using e2 by simp
  then show ?thesis using x y by simp
qed

lemma load_planes_eq:
  "load_planes sf arg vb0 = (if loads_ok sf arg then Some (load_pure sf arg vb0) else None)"
proof -
  have X: "\<And>z y vb. fold_opt (\<lambda>x vb.
             case texel sf arg
                    (astc_clamp (z - zd_start arg + offset_z arg - kernel_radius_z arg) 0
                       (int (dim_z (img arg)) - 1))
                    (astc_clamp (y - 1 + offset_y arg - kernel_radius_xy arg) 0
                       (int (dim_y (img arg)) - 1))
                    (astc_clamp (x - 1 + offset_x arg - kernel_radius_xy arg) 0
                       (int (dim_x (img arg)) - 1)) of
               None \<Rightarrow> None
             | Some d \<Rightarrow> Some (store_texel (VARBUF arg z y x) d vb))
           [1..padsize_x arg - 1] vb =
         (if \<forall>x \<in> set [1..padsize_x arg - 1]. cell sf arg z y x \<noteq> None
          then Some (fold (\<lambda>x. store_texel (VARBUF arg z y x) (the (cell sf arg z y x)))
                       [1..padsize_x arg - 1] vb)
          else None)"
    by (rule fold_opt_guarded)
      (auto simp: cell_def src_x_def src_y_def src_z_def split: option.splits)
  have Y: "\<And>z vb. fold_opt (\<lambda>y vb.
         (if \<forall>x \<in> set [1..padsize_x arg - 1]. cell sf arg z y x \<noteq> None
          then Some (fold (\<lambda>x. store_texel (VARBUF arg z y x) (the (cell sf arg z y x)))
                       [1..padsize_x arg - 1] vb)
          else None)) [1..padsize_y arg - 1] vb =
         (if \<forall>y \<in> set [1..padsize_y arg - 1]. \<forall>x \<in> set [1..padsize_x arg - 1].
               cell sf arg z y x \<noteq> None
          then Some (fold (\<lambda>y. fold (\<lambda>x.
                  store_texel (VARBUF arg z y x) (the (cell sf arg z y x)))
                       [1..padsize_x arg - 1]) [1..padsize_y arg - 1] vb)
          else None)"
    by (rule fold_opt_guarded) simp
  have Z: "fold_opt (\<lambda>z vb.
         (if \<forall>y \<in> set [1..padsize_y arg - 1]. \<forall>x \<in> set [1..padsize_x arg - 1].
               cell sf arg z y x \<noteq> None
          then Some (fold (\<lambda>y. fold (\<lambda>x.
                  store_texel (VARBUF arg z y x) (the (cell sf arg z y x)))
                       [1..padsize_x arg - 1]) [1..padsize_y arg - 1] vb)
          else None)) [zd_start arg..padsize_z arg - 1] vb0 =
         (if loads_ok sf arg then Some (load_pure sf arg vb0) else None)"
    unfolding loads_ok_def load_pure_def by (rule fold_opt_guarded) simp
  show ?thesis
    unfolding load_planes_def Let_def X Y Z ..
qed

lemma load_pure_planes:
  "load_pure sf arg vb =
     (load_plane (\<lambda>z y x. the (cell sf arg z y x)) arg (fst vb),
      load_plane (\<lambda>z y x. the (cell sf arg z y x) * the (cell sf arg z y x)) arg (snd vb))"
  unfolding load_pure_def load_plane_def
  by (intro fold_both) (simp add: store_texel_def)

lemma fold_both_fun:
  assumes "\<And>k vb. f k vb = (f1 k (fst vb), f2 k (snd vb))"
  shows "fold f ks = (\<lambda>vb. (fold f1 ks (fst vb), fold f2 ks (snd vb)))"
  by (rule ext) (rule fold_both, rule assms)

lemma zero_pad_planes:
  "zero_pad arg vb = (zero_plane arg (fst vb), zero_plane arg (snd vb))"
proof -
  have A: "\<And>key ks. fold (\<lambda>k. store_zero (key k)) ks =
          (\<lambda>vb. (fold (\<lambda>k v. v(key k := 0)) ks (fst vb), fold (\<lambda>k v. v(key k := 0)) ks (snd vb)))"
    by (rule fold_both_fun) (simp add: store_zero_def)
  have B: "fold (\<lambda>z vb.
          let vb' = fold (\<lambda>y. store_zero (VARBUF arg z y 0)) [0..padsize_y arg - 1] vb
          in fold (\<lambda>x. store_zero (VARBUF arg z 0 x)) [0..padsize_x arg - 1] vb')
        [0..padsize_z arg - 1] =
        (\<lambda>vb. (fold (\<lambda>z v.
                   fold (\<lambda>x v. v(VARBUF arg z 0 x := 0)) [0..padsize_x arg - 1]
                     (fold (\<lambda>y v. v(VARBUF arg z y 0 := 0)) [0..padsize_y arg - 1] v))
                 [0..padsize_z arg - 1] (fst vb),
                fold (\<lambda>z v.
                   fold (\<lambda>x v. v(VARBUF arg z 0 x := 0)) [0..padsize_x arg - 1]
                     (fold (\<lambda>y v. v(VARBUF arg z y 0 := 0)) [0..padsize_y arg - 1] v))
                 [0..padsize_z arg - 1] (snd vb)))"
    by (rule fold_both_fun) (simp add: A Let_def)
  have C: "fold (\<lambda>y. fold (\<lambda>x. store_zero (VARBUF arg 0 y x)) [0..padsize_x arg - 1])
                [0..padsize_y arg - 1] =
        (\<lambda>vb. (fold (\<lambda>y. fold (\<lambda>x v. v(VARBUF arg 0 y x := 0)) [0..padsize_x arg - 1])
                  [0..padsize_y arg - 1] (fst vb),
                fold (\<lambda>y. fold (\<lambda>x v. v(VARBUF arg 0 y x := 0)) [0..padsize_x arg - 1])
                  [0..padsize_y arg - 1] (snd vb)))"
    by (rule fold_both_fun) (simp add: A)
  show ?thesis
    unfolding zero_pad_def zero_plane_def B C by (simp add: Let_def)
qed

lemma build_sat_planes:
  "build_sat arg vb = (sat_plane arg (fst vb), sat_plane arg (snd vb))"
proof -
  have A: "\<And>key ks n s. fold (\<lambda>k. prefix_sum_planes (key k) n s) ks =
          (\<lambda>vb. (fold (\<lambda>k v. brent_kung_prefix_sum v (key k) n s) ks (fst vb),
                 fold (\<lambda>k v. brent_kung_prefix_sum v (key k) n s) ks (snd vb)))"
    by (rule fold_both_fun) (simp add: prefix_sum_planes_def)
  have X: "fold (\<lambda>z. fold (\<lambda>y.
            prefix_sum_planes (VARBUF arg z y 1) (nat (padsize_x arg - 1)) 1)
          [1..padsize_y arg - 1])
        [zd_start arg..padsize_z arg - 1] = (\<lambda>vb. (sat_x arg (fst vb), sat_x arg (snd vb)))"
    unfolding sat_x_def by (rule fold_both_fun) (simp add: A)
  have Y: "fold (\<lambda>z. fold (\<lambda>x.
            prefix_sum_planes (VARBUF arg z 1 x) (nat (padsize_y arg - 1)) (nat (yst arg)))
          [1..padsize_x arg - 1])
        [zd_start arg..padsize_z arg - 1] = (\<lambda>vb. (sat_y arg (fst vb), sat_y arg (snd vb)))"
    unfolding sat_y_def by (rule fold_both_fun) (simp add: A)
  have Z: "fold (\<lambda>y. fold (\<lambda>x.
             prefix_sum_planes (VARBUF arg 1 y x) (nat (padsize_z arg - 1)) (nat (zst arg)))
           [1..padsize_x arg - 1])
         [1..padsize_y arg - 1] = (\<lambda>vb. (sat_z arg (fst vb), sat_z arg (snd vb)))"
    unfolding sat_z_def by (rule fold_both_fun) (simp add: A)
  show ?thesis
    unfolding build_sat_def sat_plane_def X Y Z by (simp add: Let_def)
qed

lemma fold_product_fun:
  "fold (\<lambda>z. fold (f z) ys) zs = fold (\<lambda>(z, y). f z y) (List.product zs ys)"
  by (rule ext) (rule fold_product)

lemma fold3_upd:
  "fold (\<lambda>z. fold (\<lambda>y. fold (\<lambda>x v. v(K z y x := V z y x)) X) Y) Z =
   fold (\<lambda>k v. v((case k of (z, y, x) \<Rightarrow> K z y x) := (case k of (z, y, x) \<Rightarrow> V z y x)))
     (List.product Z (List.product Y X))"
proof -
  have "fold (\<lambda>z. fold (\<lambda>y. fold (\<lambda>x v. v(K z y x := V z y x)) X) Y) Z =
        fold (\<lambda>z. fold (\<lambda>(y, x) v. v(K z y x := V z y x)) (List.product Y X)) Z"
    by (simp only: fold_product_fun)
  also have "\<dots> = fold (\<lambda>(z, (y, x)) v. v(K z y x := V z y x)) (List.product Z (List.product Y X))"
    by (simp only: fold_product_fun)
  also have "(\<lambda>(z, (y, x)) v. v(K z y x := V z y x)) =
             (\<lambda>k v. v((case k of (z, y, x) \<Rightarrow> K z y x) := (case k of (z, y, x) \<Rightarrow> V z y x)))"
    by (auto simp: fun_eq_iff)
  finally show ?thesis .
qed

lemma fold3_upd_apply:
  assumes inj: "\<And>z y x z' y' x'. z \<in> set Z \<Longrightarrow> y \<in> set Y \<Longrightarrow> x \<in> set X \<Longrightarrow>
                  z' \<in> set Z \<Longrightarrow> y' \<in> set Y \<Longrightarrow> x' \<in> set X \<Longrightarrow>
                  K z y x = K z' y' x' \<Longrightarrow> z = z' \<and> y = y' \<and> x = x'"
    and "z \<in> set Z" "y \<in> set Y" "x \<in> set X"
  shows "fold (\<lambda>z. fold (\<lambda>y. fold (\<lambda>x v. v(K z y x := V z y x)) X) Y) Z v (K z y x) = V z y x"
proof -
  let ?key = "\<lambda>k. case k of (z, y, x) \<Rightarrow> K z y x"
  let ?val = "\<lambda>k. case k of (z, y, x) \<Rightarrow> V z y x"
  let ?ks = "List.product Z (List.product Y X)"
  have i: "inj_on ?key (set ?ks)"
    by (auto simp: inj_on_def dest: inj)
  have m: "(z, y, x) \<in> set ?ks" using assms(2-4) by simp
  show ?thesis
    unfolding fold3_upd using fold_upd_apply[OF i m, of ?val v] by simp
qed

lemma fold3_upd_other:
  assumes "\<And>z y x. z \<in> set Z \<Longrightarrow> y \<in> set Y \<Longrightarrow> x \<in> set X \<Longrightarrow> a \<noteq> K z y x"
  shows "fold (\<lambda>z. fold (\<lambda>y. fold (\<lambda>x v. v(K z y x := V z y x)) X) Y) Z v a = v a"
  unfolding fold3_upd by (rule fold_upd_other) (use assms in auto)

lemma load_plane_at:
  assumes "zd_start arg \<le> z" "z < padsize_z arg" "1 \<le> y" "y < padsize_y arg"
    "1 \<le> x" "x < padsize_x arg"
  shows "load_plane R arg v0 (VARBUF arg z y x) = R z y x"
  unfolding load_plane_def
proof (rule fold3_upd_apply)
  show "z \<in> set [zd_start arg..padsize_z arg - 1]" "y \<in> set [1..padsize_y arg - 1]"
    "x \<in> set [1..padsize_x arg - 1]" using assms by auto
next
  fix z y x z' y' x'
  assume "z \<in> set [zd_start arg..padsize_z arg - 1]" "y \<in> set [1..padsize_y arg - 1]"
    "x \<in> set [1..padsize_x arg - 1]" "z' \<in> set [zd_start arg..padsize_z arg - 1]"
    "y' \<in> set [1..padsize_y arg - 1]" "x' \<in> set [1..padsize_x arg - 1]"
    "VARBUF arg z y x = VARBUF arg z' y' x'"
  then show "z = z' \<and> y = y' \<and> x = x'"
    using VARBUF_inj[of x arg x' y y' z z'] by auto
qed

lemma fold_zero_set:
  "fold (\<lambda>k (v::int \<Rightarrow> 'a::zero). v(key k := 0)) ks v a = (if a \<in> key ` set ks then 0 else v a)"
  by (induction ks arbitrary: v) auto

lemma zero_plane_apply:
  fixes v :: "int \<Rightarrow> 'a::zero"
  shows "zero_plane arg v a =
     (if (\<exists>z \<in> set [0..padsize_z arg - 1].
            a \<in> (\<lambda>y. VARBUF arg z y 0) ` set [0..padsize_y arg - 1] \<or>
            a \<in> (\<lambda>x. VARBUF arg z 0 x) ` set [0..padsize_x arg - 1]) \<or>
         (have_z arg \<and> (\<exists>y \<in> set [0..padsize_y arg - 1].
            a \<in> (\<lambda>x. VARBUF arg 0 y x) ` set [0..padsize_x arg - 1]))
      then 0 else v a)"
proof -
  have 1: "\<And>v. fold (\<lambda>z v.
          fold (\<lambda>x v. v(VARBUF arg z 0 x := 0)) [0..padsize_x arg - 1]
            (fold (\<lambda>y v. v(VARBUF arg z y 0 := 0)) [0..padsize_y arg - 1] v))
        [0..padsize_z arg - 1] (v::int \<Rightarrow> 'a) a =
       (if a \<in> (\<Union>z \<in> set [0..padsize_z arg - 1].
            (\<lambda>y. VARBUF arg z y 0) ` set [0..padsize_y arg - 1] \<union>
            (\<lambda>x. VARBUF arg z 0 x) ` set [0..padsize_x arg - 1]) then 0 else v a)"
    by (rule fold_fill_const) (simp add: fold_zero_set)
  have 2: "\<And>v. fold (\<lambda>y. fold (\<lambda>x v. v(VARBUF arg 0 y x := 0)) [0..padsize_x arg - 1])
                [0..padsize_y arg - 1] (v::int \<Rightarrow> 'a) a =
       (if a \<in> (\<Union>y \<in> set [0..padsize_y arg - 1].
            (\<lambda>x. VARBUF arg 0 y x) ` set [0..padsize_x arg - 1]) then 0 else v a)"
    by (rule fold_fill_const) (simp add: fold_zero_set)
  show ?thesis
  proof (cases "have_z arg")
    case True
    then show ?thesis unfolding zero_plane_def Let_def by (simp add: 1 2)
  next
    case False
    then show ?thesis unfolding zero_plane_def Let_def by (simp add: 1)
  qed
qed

lemma zero_plane_at:
  fixes v :: "int \<Rightarrow> 'a::zero"
  assumes "in_box arg z y x"
  shows "zero_plane arg v (VARBUF arg z y x) =
           (if x = 0 \<or> y = 0 \<or> (have_z arg \<and> z = 0) then 0 else v (VARBUF arg z y x))"
proof -
  have b: "0 \<le> x" "x < padsize_x arg" "0 \<le> y" "y < padsize_y arg" "0 \<le> z" "z < padsize_z arg"
    using assms by (auto simp: in_box_def)
  have I: "\<And>z' y' x'. 0 \<le> x' \<Longrightarrow> x' < padsize_x arg \<Longrightarrow> 0 \<le> y' \<Longrightarrow> y' < padsize_y arg \<Longrightarrow>
            VARBUF arg z y x = VARBUF arg z' y' x' \<longleftrightarrow> x = x' \<and> y = y' \<and> z = z'"
    using VARBUF_inj[OF b(1,2) _ _ b(3,4)] by blast
  have A: "(\<exists>z' \<in> set [0..padsize_z arg - 1].
            VARBUF arg z y x \<in> (\<lambda>y. VARBUF arg z' y 0) ` set [0..padsize_y arg - 1] \<or>
            VARBUF arg z y x \<in> (\<lambda>x. VARBUF arg z' 0 x) ` set [0..padsize_x arg - 1])
          \<longleftrightarrow> x = 0 \<or> y = 0"
    using b by (auto simp: I image_iff)
  have B: "(\<exists>y' \<in> set [0..padsize_y arg - 1].
            VARBUF arg z y x \<in> (\<lambda>x. VARBUF arg 0 y' x) ` set [0..padsize_x arg - 1])
          \<longleftrightarrow> z = 0"
    using b by (auto simp: I image_iff)
  show ?thesis unfolding zero_plane_apply A B by auto
qed

lemma fold_lines_frame:
  fixes v :: "int \<Rightarrow> 'a::comm_monoid_add"
  assumes "0 < s" "\<And>k. k \<in> set ks \<Longrightarrow> \<not> on_line (start k) s n a"
  shows "fold (\<lambda>k v. brent_kung_prefix_sum v (start k) n s) ks v a = v a"
  using assms(2)
proof (induction ks arbitrary: v)
  case Nil
  then show ?case by simp
next
  case (Cons k ks)
  have "fold (\<lambda>k v. brent_kung_prefix_sum v (start k) n s) ks
          (brent_kung_prefix_sum v (start k) n s) a = brent_kung_prefix_sum v (start k) n s a"
    by (rule Cons.IH) (simp add: Cons.prems)
  also have "\<dots> = v a"
    by (rule brent_kung_frame[OF assms(1)]) (simp add: Cons.prems)
  finally show ?case by simp
qed

lemma fold_lines_sum:
  fixes v :: "int \<Rightarrow> 'a::comm_monoid_add"
  assumes s: "0 < s" and "distinct ks"
    and disj: "\<And>k k' i i'. k \<in> set ks \<Longrightarrow> k' \<in> set ks \<Longrightarrow> i < n \<Longrightarrow> i' < n \<Longrightarrow>
                 start k + int (i * s) = start k' + int (i' * s) \<Longrightarrow> k = k'"
    and "k \<in> set ks" "i < n"
  shows "fold (\<lambda>k v. brent_kung_prefix_sum v (start k) n s) ks v (start k + int (i * s)) =
           (\<Sum>j\<le>i. v (start k + int (j * s)))"
  using assms(2-4)
proof (induction ks arbitrary: v)
  case Nil
  then show ?case by simp
next
  case (Cons k0 ks)
  let ?v1 = "brent_kung_prefix_sum v (start k0) n s"
  have d': "\<And>k k' i i'. k \<in> set ks \<Longrightarrow> k' \<in> set ks \<Longrightarrow> i < n \<Longrightarrow> i' < n \<Longrightarrow>
                 start k + int (i * s) = start k' + int (i' * s) \<Longrightarrow> k = k'"
    using Cons.prems(2) by simp
  show ?case
  proof (cases "k = k0")
    case True
    have "\<And>k'. k' \<in> set ks \<Longrightarrow> \<not> on_line (start k') s n (start k + int (i * s))"
    proof
      fix k' assume k': "k' \<in> set ks" and "on_line (start k') s n (start k + int (i * s))"
      then obtain p where "p < n" "start k + int (i * s) = start k' + int (p * s)"
        by (auto simp: on_line_def)
      then have "k = k'" using Cons.prems(2)[of k k' i p] k' True assms(5) by simp
      then show False using k' True Cons.prems(1) by simp
    qed
    then have "fold (\<lambda>k v. brent_kung_prefix_sum v (start k) n s) ks ?v1 (start k + int (i * s))
               = ?v1 (start k + int (i * s))"
      by (rule fold_lines_frame[OF s])
    also have "\<dots> = (\<Sum>j\<le>i. v (start k + int (j * s)))"
      unfolding True by (rule brent_kung_sum_at[OF s assms(5)])
    finally show ?thesis by simp
  next
    case False
    then have k: "k \<in> set ks" using Cons.prems(3) by simp
    have "fold (\<lambda>k v. brent_kung_prefix_sum v (start k) n s) ks ?v1 (start k + int (i * s))
               = (\<Sum>j\<le>i. ?v1 (start k + int (j * s)))"
      using Cons.IH[OF _ d' k] Cons.prems(1) by simp
    also have "\<dots> = (\<Sum>j\<le>i. v (start k + int (j * s)))"
    proof (rule sum.cong[OF refl])
      fix j assume "j \<in> {..i}"
      then have j: "j < n" using assms(5) by simp
      have "\<not> on_line (start k0) s n (start k + int (j * s))"
      proof
        assume "on_line (start k0) s n (start k + int (j * s))"
        then obtain p where "p < n" "start k + int (j * s) = start k0 + int (p * s)"
          by (auto simp: on_line_def)
        then have "k = k0" using Cons.prems(2)[of k k0 j p] k j by simp
        then show False using False by simp
      qed
      then show "?v1 (start k + int (j * s)) = v (start k + int (j * s))"
        by (rule brent_kung_frame[OF s])
    qed
    finally show ?thesis by simp
  qed
qed

lemma sum_atMost_shift_int:
  fixes f :: "int \<Rightarrow> 'a::comm_monoid_add"
  shows "(\<Sum>j\<le>i. f (a + int j)) = (\<Sum>x\<in>{a..a + int i}. f x)"
  by (rule sum.reindex_bij_witness[of _ "\<lambda>x. nat (x - a)" "\<lambda>j. a + int j"]) auto

lemma axis_phase_sum:
  fixes v :: "int \<Rightarrow> 'a::comm_monoid_add"
  assumes s: "0 < s" and dk: "distinct ks"
    and addr: "\<And>k i. k \<in> set ks \<Longrightarrow> start k + int (i * s) = P k (1 + int i)"
    and inj: "\<And>k k' c c'. k \<in> set ks \<Longrightarrow> k' \<in> set ks \<Longrightarrow> 1 \<le> c \<Longrightarrow> c \<le> int n \<Longrightarrow>
                1 \<le> c' \<Longrightarrow> c' \<le> int n \<Longrightarrow> P k c = P k' c' \<Longrightarrow> k = k'"
    and k: "k \<in> set ks" and c: "1 \<le> c" "c \<le> int n"
  shows "fold (\<lambda>k v. brent_kung_prefix_sum v (start k) n s) ks v (P k c) =
           (\<Sum>c'\<in>{1..c}. v (P k c'))"
proof -
  define i where "i = nat (c - 1)"
  have i: "i < n" "c = 1 + int i" using c by (auto simp: i_def)
  have disj: "\<And>k k' i i'. k \<in> set ks \<Longrightarrow> k' \<in> set ks \<Longrightarrow> i < n \<Longrightarrow> i' < n \<Longrightarrow>
                 start k + int (i * s) = start k' + int (i' * s) \<Longrightarrow> k = k'"
  proof -
    fix k k' i i'
    assume a: "k \<in> set ks" "k' \<in> set ks" "i < n" "i' < n"
      "start k + int (i * s) = start k' + int (i' * s)"
    then have "P k (1 + int i) = P k' (1 + int i')" using addr by simp
    then show "k = k'" using inj[of k k' "1 + int i" "1 + int i'"] a by simp
  qed
  have "fold (\<lambda>k v. brent_kung_prefix_sum v (start k) n s) ks v (start k + int (i * s)) =
           (\<Sum>j\<le>i. v (start k + int (j * s)))"
    by (rule fold_lines_sum[OF s dk disj k i(1)])
  moreover have "(\<Sum>j\<le>i. v (start k + int (j * s))) = (\<Sum>j\<le>i. v (P k (1 + int j)))"
    using addr[OF k] by simp
  moreover have "\<dots> = (\<Sum>c'\<in>{1..1 + int i}. v (P k c'))"
    by (rule sum_atMost_shift_int)
  ultimately show ?thesis using addr[OF k, of i] i(2) by simp
qed

lemma axis_phase_frame:
  fixes v :: "int \<Rightarrow> 'a::comm_monoid_add"
  assumes s: "0 < s"
    and addr: "\<And>k i. k \<in> set ks \<Longrightarrow> start k + int (i * s) = P k (1 + int i)"
    and off: "\<And>k c. k \<in> set ks \<Longrightarrow> 1 \<le> c \<Longrightarrow> c \<le> int n \<Longrightarrow> a \<noteq> P k c"
  shows "fold (\<lambda>k v. brent_kung_prefix_sum v (start k) n s) ks v a = v a"
proof (rule fold_lines_frame[OF s])
  fix k assume k: "k \<in> set ks"
  show "\<not> on_line (start k) s n a"
  proof
    assume "on_line (start k) s n a"
    then obtain p where "p < n" "a = start k + int (p * s)" by (auto simp: on_line_def)
    then have "a = P k (1 + int p)" "1 \<le> 1 + int p" "1 + int p \<le> int n"
      using addr[OF k] by auto
    then show False using off[OF k] by blast
  qed
qed

lemma sat_x_at:
  fixes v :: "int \<Rightarrow> 'a::comm_monoid_add"
  assumes "in_box arg z y x"
  shows "sat_x arg v (VARBUF arg z y x) =
           (if zd_start arg \<le> z \<and> 1 \<le> y \<and> 1 \<le> x
            then (\<Sum>x'\<in>{1..x}. v (VARBUF arg z y x')) else v (VARBUF arg z y x))"
proof -
  have b: "0 \<le> x" "x < padsize_x arg" "0 \<le> y" "y < padsize_y arg" "0 \<le> z" "z < padsize_z arg"
    using assms by (auto simp: in_box_def)
  define ks where "ks = List.product [zd_start arg..padsize_z arg - 1] [1..padsize_y arg - 1]"
  define n where "n = nat (padsize_x arg - 1)"
  define start where "start = (\<lambda>k. VARBUF arg (fst k) (snd k) 1)"
  define P where "P = (\<lambda>k c. VARBUF arg (fst k) (snd k) c)"
  have n: "int n = padsize_x arg - 1" using b by (simp add: n_def)
  have f: "sat_x arg v = fold (\<lambda>k v. brent_kung_prefix_sum v (start k) n 1) ks v"
    unfolding sat_x_def fold_product_fun ks_def n_def start_def case_prod_unfold
    by simp
  have dk: "distinct ks" unfolding ks_def by (simp add: distinct_product)
  have addr: "\<And>k i. k \<in> set ks \<Longrightarrow> start k + int (i * 1) = P k (1 + int i)"
    by (auto simp: start_def P_def VARBUF_def)
  have inj: "\<And>k k' c c'. k \<in> set ks \<Longrightarrow> k' \<in> set ks \<Longrightarrow> 1 \<le> c \<Longrightarrow> c \<le> int n \<Longrightarrow>
                1 \<le> c' \<Longrightarrow> c' \<le> int n \<Longrightarrow> P k c = P k' c' \<Longrightarrow> k = k'"
    unfolding n ks_def P_def
    by (auto dest!: VARBUF_inj[rotated -1])
  show ?thesis
  proof (cases "zd_start arg \<le> z \<and> 1 \<le> y \<and> 1 \<le> x")
    case True
    then have k: "(z, y) \<in> set ks" using b by (simp add: ks_def)
    have c: "1 \<le> x" "x \<le> int n" using True b n by auto
    have "fold (\<lambda>k v. brent_kung_prefix_sum v (start k) n 1) ks v (P (z, y) x) =
           (\<Sum>c'\<in>{1..x}. v (P (z, y) c'))"
      by (rule axis_phase_sum[where P = P and start = start, OF zero_less_one dk addr inj k c])
    then show ?thesis
      unfolding f using True by (simp add: P_def)
  next
    case False
    have "fold (\<lambda>k v. brent_kung_prefix_sum v (start k) n 1) ks v (VARBUF arg z y x) =
            v (VARBUF arg z y x)"
    proof (rule axis_phase_frame[where P = P and start = start, OF zero_less_one addr])
      fix k c assume "k \<in> set ks" "1 \<le> c" "c \<le> int n"
      then show "VARBUF arg z y x \<noteq> P k c"
        using False b VARBUF_inj[of x arg c y "snd k" z "fst k"]
        unfolding n ks_def P_def by (auto simp: case_prod_beta)
    qed
    then show ?thesis unfolding f using False by auto
  qed
qed

lemma sat_y_at:
  fixes v :: "int \<Rightarrow> 'a::comm_monoid_add"
  assumes "in_box arg z y x"
  shows "sat_y arg v (VARBUF arg z y x) =
           (if zd_start arg \<le> z \<and> 1 \<le> y \<and> 1 \<le> x
            then (\<Sum>y'\<in>{1..y}. v (VARBUF arg z y' x)) else v (VARBUF arg z y x))"
proof -
  have b: "0 \<le> x" "x < padsize_x arg" "0 \<le> y" "y < padsize_y arg" "0 \<le> z" "z < padsize_z arg"
    using assms by (auto simp: in_box_def)
  define ks where "ks = List.product [zd_start arg..padsize_z arg - 1] [1..padsize_x arg - 1]"
  define n where "n = nat (padsize_y arg - 1)"
  define start where "start = (\<lambda>k. VARBUF arg (fst k) 1 (snd k))"
  define P where "P = (\<lambda>k c. VARBUF arg (fst k) c (snd k))"
  have n: "int n = padsize_y arg - 1" using b by (simp add: n_def)
  have s: "0 < nat (yst arg)" "int (nat (yst arg)) = yst arg" using b by (auto simp: yst_def)
  have f: "sat_y arg v = fold (\<lambda>k v. brent_kung_prefix_sum v (start k) n (nat (yst arg))) ks v"
    unfolding sat_y_def fold_product_fun ks_def n_def start_def case_prod_unfold
    by simp
  have dk: "distinct ks" unfolding ks_def by (simp add: distinct_product)
  have addr: "\<And>k i. k \<in> set ks \<Longrightarrow> start k + int (i * nat (yst arg)) = P k (1 + int i)"
    using s(2) by (auto simp: start_def P_def VARBUF_def algebra_simps)
  have inj: "\<And>k k' c c'. k \<in> set ks \<Longrightarrow> k' \<in> set ks \<Longrightarrow> 1 \<le> c \<Longrightarrow> c \<le> int n \<Longrightarrow>
                1 \<le> c' \<Longrightarrow> c' \<le> int n \<Longrightarrow> P k c = P k' c' \<Longrightarrow> k = k'"
    unfolding n ks_def P_def
    by (auto dest!: VARBUF_inj[rotated -1])
  show ?thesis
  proof (cases "zd_start arg \<le> z \<and> 1 \<le> y \<and> 1 \<le> x")
    case True
    then have k: "(z, x) \<in> set ks" using b by (simp add: ks_def)
    have c: "1 \<le> y" "y \<le> int n" using True b n by auto
    have "fold (\<lambda>k v. brent_kung_prefix_sum v (start k) n (nat (yst arg))) ks v (P (z, x) y) =
           (\<Sum>c'\<in>{1..y}. v (P (z, x) c'))"
      by (rule axis_phase_sum[where P = P and start = start, OF s(1) dk addr inj k c])
    then show ?thesis
      unfolding f using True by (simp add: P_def)
  next
    case False
    have "fold (\<lambda>k v. brent_kung_prefix_sum v (start k) n (nat (yst arg))) ks v
            (VARBUF arg z y x) = v (VARBUF arg z y x)"
    proof (rule axis_phase_frame[where P = P and start = start, OF s(1) addr])
      fix k c assume "k \<in> set ks" "1 \<le> c" "c \<le> int n"
      then show "VARBUF arg z y x \<noteq> P k c"
        using False b VARBUF_inj[of x arg "snd k" y c z "fst k"]
        unfolding n ks_def P_def by (auto simp: case_prod_beta)
    qed
    then show ?thesis unfolding f using False by auto
  qed
qed

lemma sat_z_at:
  fixes v :: "int \<Rightarrow> 'a::comm_monoid_add"
  assumes "in_box arg z y x"
  shows "sat_z arg v (VARBUF arg z y x) =
           (if 1 \<le> z \<and> 1 \<le> y \<and> 1 \<le> x
            then (\<Sum>z'\<in>{1..z}. v (VARBUF arg z' y x)) else v (VARBUF arg z y x))"
proof -
  have b: "0 \<le> x" "x < padsize_x arg" "0 \<le> y" "y < padsize_y arg" "0 \<le> z" "z < padsize_z arg"
    using assms by (auto simp: in_box_def)
  define ks where "ks = List.product [1..padsize_y arg - 1] [1..padsize_x arg - 1]"
  define n where "n = nat (padsize_z arg - 1)"
  define start where "start = (\<lambda>k. VARBUF arg 1 (fst k) (snd k))"
  define P where "P = (\<lambda>k c. VARBUF arg c (fst k) (snd k))"
  have n: "int n = padsize_z arg - 1" using b by (simp add: n_def)
  have "0 < padsize_x arg * padsize_y arg" using b by (simp add: zero_less_mult_iff)
  then have s: "0 < nat (zst arg)" "int (nat (zst arg)) = zst arg" by (auto simp: zst_def)
  have f: "sat_z arg v = fold (\<lambda>k v. brent_kung_prefix_sum v (start k) n (nat (zst arg))) ks v"
    unfolding sat_z_def fold_product_fun ks_def n_def start_def case_prod_unfold
    by simp
  have dk: "distinct ks" unfolding ks_def by (simp add: distinct_product)
  have addr: "\<And>k i. k \<in> set ks \<Longrightarrow> start k + int (i * nat (zst arg)) = P k (1 + int i)"
    using s(2) by (auto simp: start_def P_def VARBUF_def algebra_simps)
  have inj: "\<And>k k' c c'. k \<in> set ks \<Longrightarrow> k' \<in> set ks \<Longrightarrow> 1 \<le> c \<Longrightarrow> c \<le> int n \<Longrightarrow>
                1 \<le> c' \<Longrightarrow> c' \<le> int n \<Longrightarrow> P k c = P k' c' \<Longrightarrow> k = k'"
    unfolding n ks_def P_def
    by (auto dest!: VARBUF_inj[rotated -1])
  show ?thesis
  proof (cases "1 \<le> z \<and> 1 \<le> y \<and> 1 \<le> x")
    case True
    then have k: "(y, x) \<in> set ks" using b by (simp add: ks_def)
    have c: "1 \<le> z" "z \<le> int n" using True b n by auto
    have "fold (\<lambda>k v. brent_kung_prefix_sum v (start k) n (nat (zst arg))) ks v (P (y, x) z) =
           (\<Sum>c'\<in>{1..z}. v (P (y, x) c'))"
      by (rule axis_phase_sum[where P = P and start = start, OF s(1) dk addr inj k c])
    then show ?thesis
      unfolding f using True by (simp add: P_def)
  next
    case False
    have "fold (\<lambda>k v. brent_kung_prefix_sum v (start k) n (nat (zst arg))) ks v
            (VARBUF arg z y x) = v (VARBUF arg z y x)"
    proof (rule axis_phase_frame[where P = P and start = start, OF s(1) addr])
      fix k c assume "k \<in> set ks" "1 \<le> c" "c \<le> int n"
      then show "VARBUF arg z y x \<noteq> P k c"
        using False b VARBUF_inj[of x arg "snd k" y "fst k" z c]
        unfolding n ks_def P_def by (auto simp: case_prod_beta)
    qed
    then show ?thesis unfolding f using False by auto
  qed
qed

lemma padded_plane_at:
  fixes R :: "int \<Rightarrow> int \<Rightarrow> int \<Rightarrow> 'a::zero"
  assumes "in_box arg z y x"
  shows "zero_plane arg (load_plane R arg v0) (VARBUF arg z y x) = padded arg R z y x"
proof (cases "x = 0 \<or> y = 0 \<or> (have_z arg \<and> z = 0)")
  case True
  then show ?thesis unfolding zero_plane_at[OF assms] padded_def by simp
next
  case False
  then have "zd_start arg \<le> z" "z < padsize_z arg" "1 \<le> y" "y < padsize_y arg"
    "1 \<le> x" "x < padsize_x arg"
    using assms by (auto simp: in_box_def zd_start_def)
  then have "load_plane R arg v0 (VARBUF arg z y x) = R z y x" by (rule load_plane_at)
  then show ?thesis unfolding zero_plane_at[OF assms] padded_def using False by auto
qed

lemma sat_x_closed:
  fixes R :: "int \<Rightarrow> int \<Rightarrow> int \<Rightarrow> 'a::comm_monoid_add"
  assumes "in_box arg z y x"
  shows "sat_x arg (zero_plane arg (load_plane R arg v0)) (VARBUF arg z y x) =
           (\<Sum>x'\<in>{1..x}. padded arg R z y x')"
proof (cases "zd_start arg \<le> z \<and> 1 \<le> y \<and> 1 \<le> x")
  case True
  have "(\<Sum>x'\<in>{1..x}. zero_plane arg (load_plane R arg v0) (VARBUF arg z y x')) =
        (\<Sum>x'\<in>{1..x}. padded arg R z y x')"
    using assms by (intro sum.cong refl padded_plane_at) (auto simp: in_box_def)
  then show ?thesis unfolding sat_x_at[OF assms] using True by simp
next
  case False
  have "padded arg R z y x = (\<Sum>x'\<in>{1..x}. padded arg R z y x')"
  proof (cases "x = 0")
    case True
    then show ?thesis by (simp add: padded_def)
  next
    case F: False
    then have "y = 0 \<or> (have_z arg \<and> z = 0)"
      using False assms by (auto simp: in_box_def zd_start_def split: if_splits)
    then show ?thesis by (auto simp: padded_def)
  qed
  then show ?thesis unfolding sat_x_at[OF assms] padded_plane_at[OF assms] using False by auto
qed

lemma sat_y_closed:
  fixes R :: "int \<Rightarrow> int \<Rightarrow> int \<Rightarrow> 'a::comm_monoid_add"
  assumes "in_box arg z y x"
  shows "sat_y arg (sat_x arg (zero_plane arg (load_plane R arg v0))) (VARBUF arg z y x) =
           (\<Sum>y'\<in>{1..y}. \<Sum>x'\<in>{1..x}. padded arg R z y' x')"
proof (cases "zd_start arg \<le> z \<and> 1 \<le> y \<and> 1 \<le> x")
  case True
  have "(\<Sum>y'\<in>{1..y}. sat_x arg (zero_plane arg (load_plane R arg v0)) (VARBUF arg z y' x)) =
        (\<Sum>y'\<in>{1..y}. \<Sum>x'\<in>{1..x}. padded arg R z y' x')"
    using assms by (intro sum.cong refl sat_x_closed) (auto simp: in_box_def)
  then show ?thesis unfolding sat_y_at[OF assms] using True by simp
next
  case False
  have "(\<Sum>x'\<in>{1..x}. padded arg R z y x') = (\<Sum>y'\<in>{1..y}. \<Sum>x'\<in>{1..x}. padded arg R z y' x')"
  proof (cases "x = 0 \<or> y = 0")
    case True
    then show ?thesis by (auto simp: padded_def)
  next
    case F: False
    then have "have_z arg \<and> z = 0"
      using False assms by (auto simp: in_box_def zd_start_def split: if_splits)
    then show ?thesis by (auto simp: padded_def)
  qed
  then show ?thesis unfolding sat_y_at[OF assms] sat_x_closed[OF assms] using False by auto
qed

lemma sat_z_closed:
  fixes R :: "int \<Rightarrow> int \<Rightarrow> int \<Rightarrow> 'a::comm_monoid_add"
  assumes "in_box arg z y x" "have_z arg"
  shows "sat_z arg (sat_y arg (sat_x arg (zero_plane arg (load_plane R arg v0))))
           (VARBUF arg z y x) =
           (\<Sum>z'\<in>{1..z}. \<Sum>y'\<in>{1..y}. \<Sum>x'\<in>{1..x}. padded arg R z' y' x')"
proof (cases "1 \<le> z \<and> 1 \<le> y \<and> 1 \<le> x")
  case True
  have "(\<Sum>z'\<in>{1..z}. sat_y arg (sat_x arg (zero_plane arg (load_plane R arg v0)))
            (VARBUF arg z' y x)) =
        (\<Sum>z'\<in>{1..z}. \<Sum>y'\<in>{1..y}. \<Sum>x'\<in>{1..x}. padded arg R z' y' x')"
    using assms(1) by (intro sum.cong refl sat_y_closed) (auto simp: in_box_def)
  then show ?thesis unfolding sat_z_at[OF assms(1)] using True by simp
next
  case False
  have "(\<Sum>y'\<in>{1..y}. \<Sum>x'\<in>{1..x}. padded arg R z y' x') =
        (\<Sum>z'\<in>{1..z}. \<Sum>y'\<in>{1..y}. \<Sum>x'\<in>{1..x}. padded arg R z' y' x')"
  proof (cases "x = 0 \<or> y = 0")
    case True
    then show ?thesis by (auto simp: padded_def)
  next
    case F: False
    then have "z = 0" using False assms by (auto simp: in_box_def)
    then show ?thesis using assms(2) by (auto simp: padded_def)
  qed
  then show ?thesis unfolding sat_z_at[OF assms(1)] sat_y_closed[OF assms(1)] using False by auto
qed

lemma sum_ivl_diff:
  fixes f :: "int \<Rightarrow> 'a::ab_group_add"
  assumes "0 \<le> l" "l \<le> h"
  shows "(\<Sum>i\<in>{1..h}. f i) - (\<Sum>i\<in>{1..l}. f i) = (\<Sum>i\<in>{l + 1..h}. f i)"
proof -
  have "{1..h} = {1..l} \<union> {l + 1..h}" using assms by auto
  moreover have "{1..l} \<inter> {l + 1..h} = {}" by auto
  ultimately have "(\<Sum>i\<in>{1..h}. f i) = (\<Sum>i\<in>{1..l}. f i) + (\<Sum>i\<in>{l + 1..h}. f i)"
    by (simp add: sum.union_disjoint)
  then show ?thesis by simp
qed

lemma corners_box_2d:
  fixes F :: "int \<Rightarrow> int \<Rightarrow> 'a::ab_group_add"
  assumes "0 \<le> xl" "xl \<le> xh" "0 \<le> yl" "yl \<le> yh"
  shows "(\<Sum>y\<in>{1..yl}. \<Sum>x\<in>{1..xl}. F y x) - (\<Sum>y\<in>{1..yl}. \<Sum>x\<in>{1..xh}. F y x)
         - (\<Sum>y\<in>{1..yh}. \<Sum>x\<in>{1..xl}. F y x) + (\<Sum>y\<in>{1..yh}. \<Sum>x\<in>{1..xh}. F y x)
         = (\<Sum>y\<in>{yl + 1..yh}. \<Sum>x\<in>{xl + 1..xh}. F y x)"
proof -
  have T: "\<And>y. (\<Sum>x\<in>{1..xh}. F y x) - (\<Sum>x\<in>{1..xl}. F y x) = (\<Sum>x\<in>{xl + 1..xh}. F y x)"
    by (rule sum_ivl_diff[OF assms(1,2)])
  have U: "\<And>Y. (\<Sum>y\<in>Y. \<Sum>x\<in>{1..xh}. F y x) - (\<Sum>y\<in>Y. \<Sum>x\<in>{1..xl}. F y x)
            = (\<Sum>y\<in>Y. \<Sum>x\<in>{xl + 1..xh}. F y x)"
    by (simp add: sum_subtractf[symmetric] T)
  have "(\<Sum>y\<in>{1..yl}. \<Sum>x\<in>{1..xl}. F y x) - (\<Sum>y\<in>{1..yl}. \<Sum>x\<in>{1..xh}. F y x)
         - (\<Sum>y\<in>{1..yh}. \<Sum>x\<in>{1..xl}. F y x) + (\<Sum>y\<in>{1..yh}. \<Sum>x\<in>{1..xh}. F y x)
        = ((\<Sum>y\<in>{1..yh}. \<Sum>x\<in>{1..xh}. F y x) - (\<Sum>y\<in>{1..yh}. \<Sum>x\<in>{1..xl}. F y x))
        - ((\<Sum>y\<in>{1..yl}. \<Sum>x\<in>{1..xh}. F y x) - (\<Sum>y\<in>{1..yl}. \<Sum>x\<in>{1..xl}. F y x))"
    by (simp add: algebra_simps)
  also have "\<dots> = (\<Sum>y\<in>{1..yh}. \<Sum>x\<in>{xl + 1..xh}. F y x)
                  - (\<Sum>y\<in>{1..yl}. \<Sum>x\<in>{xl + 1..xh}. F y x)"
    by (simp only: U)
  also have "\<dots> = (\<Sum>y\<in>{yl + 1..yh}. \<Sum>x\<in>{xl + 1..xh}. F y x)"
    by (rule sum_ivl_diff[OF assms(3,4)])
  finally show ?thesis .
qed

lemma corners_box_3d:
  fixes F :: "int \<Rightarrow> int \<Rightarrow> int \<Rightarrow> 'a::ab_group_add"
  assumes "0 \<le> xl" "xl \<le> xh" "0 \<le> yl" "yl \<le> yh" "0 \<le> zl" "zl \<le> zh"
  shows "((\<Sum>z\<in>{1..zh}. \<Sum>y\<in>{1..yl}. \<Sum>x\<in>{1..xl}. F z y x)
          - (\<Sum>z\<in>{1..zh}. \<Sum>y\<in>{1..yl}. \<Sum>x\<in>{1..xh}. F z y x)
          - (\<Sum>z\<in>{1..zh}. \<Sum>y\<in>{1..yh}. \<Sum>x\<in>{1..xl}. F z y x)
          + (\<Sum>z\<in>{1..zh}. \<Sum>y\<in>{1..yh}. \<Sum>x\<in>{1..xh}. F z y x))
       - ((\<Sum>z\<in>{1..zl}. \<Sum>y\<in>{1..yl}. \<Sum>x\<in>{1..xl}. F z y x)
          - (\<Sum>z\<in>{1..zl}. \<Sum>y\<in>{1..yl}. \<Sum>x\<in>{1..xh}. F z y x)
          - (\<Sum>z\<in>{1..zl}. \<Sum>y\<in>{1..yh}. \<Sum>x\<in>{1..xl}. F z y x)
          + (\<Sum>z\<in>{1..zl}. \<Sum>y\<in>{1..yh}. \<Sum>x\<in>{1..xh}. F z y x))
       = (\<Sum>z\<in>{zl + 1..zh}. \<Sum>y\<in>{yl + 1..yh}. \<Sum>x\<in>{xl + 1..xh}. F z y x)"
proof -
  have B: "\<And>Z. (\<Sum>z\<in>Z. \<Sum>y\<in>{1..yl}. \<Sum>x\<in>{1..xl}. F z y x)
          - (\<Sum>z\<in>Z. \<Sum>y\<in>{1..yl}. \<Sum>x\<in>{1..xh}. F z y x)
          - (\<Sum>z\<in>Z. \<Sum>y\<in>{1..yh}. \<Sum>x\<in>{1..xl}. F z y x)
          + (\<Sum>z\<in>Z. \<Sum>y\<in>{1..yh}. \<Sum>x\<in>{1..xh}. F z y x)
          = (\<Sum>z\<in>Z. \<Sum>y\<in>{yl + 1..yh}. \<Sum>x\<in>{xl + 1..xh}. F z y x)"
  proof -
    fix Z :: "int set"
    have "(\<Sum>z\<in>Z. \<Sum>y\<in>{yl + 1..yh}. \<Sum>x\<in>{xl + 1..xh}. F z y x) =
          (\<Sum>z\<in>Z. (\<Sum>y\<in>{1..yl}. \<Sum>x\<in>{1..xl}. F z y x)
                  - (\<Sum>y\<in>{1..yl}. \<Sum>x\<in>{1..xh}. F z y x)
                  - (\<Sum>y\<in>{1..yh}. \<Sum>x\<in>{1..xl}. F z y x)
                  + (\<Sum>y\<in>{1..yh}. \<Sum>x\<in>{1..xh}. F z y x))"
      by (rule sum.cong[OF refl]) (rule corners_box_2d[OF assms(1-4), symmetric])
    also have "\<dots> = (\<Sum>z\<in>Z. \<Sum>y\<in>{1..yl}. \<Sum>x\<in>{1..xl}. F z y x)
          - (\<Sum>z\<in>Z. \<Sum>y\<in>{1..yl}. \<Sum>x\<in>{1..xh}. F z y x)
          - (\<Sum>z\<in>Z. \<Sum>y\<in>{1..yh}. \<Sum>x\<in>{1..xl}. F z y x)
          + (\<Sum>z\<in>Z. \<Sum>y\<in>{1..yh}. \<Sum>x\<in>{1..xh}. F z y x)"
      by (simp only: sum_subtractf sum.distrib)
    finally show "(\<Sum>z\<in>Z. \<Sum>y\<in>{1..yl}. \<Sum>x\<in>{1..xl}. F z y x)
          - (\<Sum>z\<in>Z. \<Sum>y\<in>{1..yl}. \<Sum>x\<in>{1..xh}. F z y x)
          - (\<Sum>z\<in>Z. \<Sum>y\<in>{1..yh}. \<Sum>x\<in>{1..xl}. F z y x)
          + (\<Sum>z\<in>Z. \<Sum>y\<in>{1..yh}. \<Sum>x\<in>{1..xh}. F z y x)
          = (\<Sum>z\<in>Z. \<Sum>y\<in>{yl + 1..yh}. \<Sum>x\<in>{xl + 1..xh}. F z y x)" by (rule sym)
  qed
  show ?thesis
    unfolding B by (rule sum_ivl_diff[OF assms(5,6)])
qed

lemma mixed_radix_inj:
  fixes px py :: int
  assumes "0 \<le> x" "x < px" "0 \<le> x'" "x' < px" "0 \<le> y" "y < py" "0 \<le> y'" "y' < py"
    and "z * (px * py) + y * px + x = z' * (px * py) + y' * px + x'"
  shows "x = x' \<and> y = y' \<and> z = z'"
proof -
  have e: "(z * py + y) * px + x = (z' * py + y') * px + x'"
    using assms(9) by (simp add: algebra_simps)
  have "((z * py + y) * px + x) mod px = x" "((z' * py + y') * px + x') mod px = x'"
    using assms by simp_all
  then have x: "x = x'" using e by simp
  have "((z * py + y) * px + x) div px = z * py + y"
       "((z' * py + y') * px + x') div px = z' * py + y'"
    using assms by simp_all
  then have e2: "z * py + y = z' * py + y'" using e by simp
  have "(z * py + y) mod py = y" "(z' * py + y') mod py = y'"
    using assms by simp_all
  then have y: "y = y'" using e2 by simp
  have "(z * py + y) div py = z" "(z' * py + y') div py = z'"
    using assms by simp_all
  then have "z = z'" using e2 by simp
  then show ?thesis using x y by simp
qed

lemma out_index_3d_inj:
  assumes "tile_in_image arg"
    and "0 \<le> x" "x < size_x arg" "0 \<le> x'" "x' < size_x arg"
    and "0 \<le> y" "y < size_y arg" "0 \<le> y'" "y' < size_y arg"
    and "out_index_3d arg z y x = out_index_3d arg z' y' x'"
  shows "z = z' \<and> y = y' \<and> x = x'"
  using mixed_radix_inj[of "x + offset_x arg" "int (dim_x (img arg))" "x' + offset_x arg"
      "y + offset_y arg" "int (dim_y (img arg))" "y' + offset_y arg"
      "z + offset_z arg" "z' + offset_z arg"] assms
  by (auto simp: tile_in_image_def out_index_3d_def zdt_def ydt_def Let_def)

lemma out_index_2d_inj:
  assumes "tile_in_image arg"
    and "0 \<le> x" "x < size_x arg" "0 \<le> x'" "x' < size_x arg"
    and "out_index_2d arg y x = out_index_2d arg y' x'"
  shows "y = y' \<and> x = x'"
proof -
  let ?dx = "int (dim_x (img arg))"
  have b: "0 \<le> x + offset_x arg" "x + offset_x arg < ?dx"
          "0 \<le> x' + offset_x arg" "x' + offset_x arg < ?dx"
    using assms by (auto simp: tile_in_image_def)
  have e: "(y + offset_y arg) * ?dx + (x + offset_x arg) =
           (y' + offset_y arg) * ?dx + (x' + offset_x arg)"
    using assms(6) by (simp add: out_index_2d_def ydt_def Let_def)
  have "((y + offset_y arg) * ?dx + (x + offset_x arg)) mod ?dx = x + offset_x arg"
       "((y' + offset_y arg) * ?dx + (x' + offset_x arg)) mod ?dx = x' + offset_x arg"
    using b by simp_all
  then have x: "x = x'" using e by simp
  have "((y + offset_y arg) * ?dx + (x + offset_x arg)) div ?dx = y + offset_y arg"
       "((y' + offset_y arg) * ?dx + (x' + offset_x arg)) div ?dx = y' + offset_y arg"
    using b by simp_all
  then have "y = y'" using e by simp
  then show ?thesis using x by simp
qed

lemma proj_fold:
  assumes "\<And>k c. proj (f k c) = g k (proj c)"
  shows "proj (fold f ks c) = fold g ks (proj c)"
  by (induction ks arbitrary: c) (simp_all add: assms)

lemma emit_fields:
  "input_averages (emit arg i va v1 v2 ctx) = (input_averages ctx)(i := average_of arg v1)"
  "input_variances (emit arg i va v1 v2 ctx) = (input_variances ctx)(i := variance_of arg v1 v2)"
  "input_alpha_averages (emit arg i va v1 v2 ctx) =
     (input_alpha_averages ctx)(i := va * alpha_rsamples arg)"
  by (simp_all add: emit_def Let_def average_of_def variance_of_def)

lemma fold2_upd_apply:
  assumes inj: "\<And>y x y' x'. y \<in> set Y \<Longrightarrow> x \<in> set X \<Longrightarrow> y' \<in> set Y \<Longrightarrow> x' \<in> set X \<Longrightarrow>
                  K y x = K y' x' \<Longrightarrow> y = y' \<and> x = x'"
    and "y \<in> set Y" "x \<in> set X"
  shows "fold (\<lambda>y. fold (\<lambda>x v. v(K y x := V y x)) X) Y v (K y x) = V y x"
  using fold3_upd_apply[of "[0::int]" Y X "\<lambda>z. K" 0 y x "\<lambda>z. V" v] assms
  by simp

lemma fold2_upd_other:
  assumes "\<And>y x. y \<in> set Y \<Longrightarrow> x \<in> set X \<Longrightarrow> a \<noteq> K y x"
  shows "fold (\<lambda>y. fold (\<lambda>x v. v(K y x := V y x)) X) Y v a = v a"
  using fold3_upd_other[of "[0::int]" Y X a "\<lambda>z. K" "\<lambda>z. V" v] assms
  by simp

lemma extract_2d_fold:
  assumes "\<not> have_z arg"
    and P: "\<And>y x c. proj (pixel_2d arg vb y x c) = (proj c)(out_index_2d arg y x := val y x)"
  shows "proj (extract_stats arg vb ctx) =
         fold (\<lambda>y. fold (\<lambda>x m. m(out_index_2d arg y x := val y x)) [0..size_x arg - 1])
           [0..size_y arg - 1] (proj ctx)"
proof -
  have 1: "\<And>y c. proj (fold (\<lambda>x. pixel_2d arg vb y x) [0..size_x arg - 1] c) =
           fold (\<lambda>x m. m(out_index_2d arg y x := val y x)) [0..size_x arg - 1] (proj c)"
    by (rule proj_fold) (rule P)
  have "proj (fold (\<lambda>y. fold (\<lambda>x. pixel_2d arg vb y x) [0..size_x arg - 1])
              [0..size_y arg - 1] ctx) =
         fold (\<lambda>y. fold (\<lambda>x m. m(out_index_2d arg y x := val y x)) [0..size_x arg - 1])
           [0..size_y arg - 1] (proj ctx)"
    by (rule proj_fold) (rule 1)
  then show ?thesis
    using assms(1) unfolding extract_stats_def by simp
qed

lemma extract_3d_fold:
  assumes "have_z arg"
    and P: "\<And>z y x c. proj (pixel_3d arg vb z y x c) = (proj c)(out_index_3d arg z y x := val z y x)"
  shows "proj (extract_stats arg vb ctx) =
         fold (\<lambda>z. fold (\<lambda>y. fold (\<lambda>x m. m(out_index_3d arg z y x := val z y x))
           [0..size_x arg - 1]) [0..size_y arg - 1]) [0..size_z arg - 1] (proj ctx)"
proof -
  have 1: "\<And>z y c. proj (fold (\<lambda>x. pixel_3d arg vb z y x) [0..size_x arg - 1] c) =
           fold (\<lambda>x m. m(out_index_3d arg z y x := val z y x)) [0..size_x arg - 1] (proj c)"
    by (rule proj_fold) (rule P)
  have 2: "\<And>z c. proj (fold (\<lambda>y. fold (\<lambda>x. pixel_3d arg vb z y x) [0..size_x arg - 1])
              [0..size_y arg - 1] c) =
           fold (\<lambda>y. fold (\<lambda>x m. m(out_index_3d arg z y x := val z y x)) [0..size_x arg - 1])
              [0..size_y arg - 1] (proj c)"
    by (rule proj_fold) (rule 1)
  have "proj (fold (\<lambda>z. fold (\<lambda>y. fold (\<lambda>x. pixel_3d arg vb z y x) [0..size_x arg - 1])
              [0..size_y arg - 1]) [0..size_z arg - 1] ctx) =
         fold (\<lambda>z. fold (\<lambda>y. fold (\<lambda>x m. m(out_index_3d arg z y x := val z y x))
           [0..size_x arg - 1]) [0..size_y arg - 1]) [0..size_z arg - 1] (proj ctx)"
    by (rule proj_fold) (rule 2)
  then show ?thesis
    using assms(1) unfolding extract_stats_def by simp
qed

lemma extract_2d_at:
  assumes "\<not> have_z arg" "tile_in_image arg"
    and "0 \<le> y" "y < size_y arg" "0 \<le> x" "x < size_x arg"
    and P: "\<And>y x c. proj (pixel_2d arg vb y x c) = (proj c)(out_index_2d arg y x := val y x)"
  shows "proj (extract_stats arg vb ctx) (out_index_2d arg y x) = val y x"
  unfolding extract_2d_fold[where proj = proj and val = val, OF assms(1) P]
proof (rule fold2_upd_apply)
  show "y \<in> set [0..size_y arg - 1]" "x \<in> set [0..size_x arg - 1]" using assms by auto
next
  fix y x y' x'
  assume "y \<in> set [0..size_y arg - 1]" "x \<in> set [0..size_x arg - 1]"
    "y' \<in> set [0..size_y arg - 1]" "x' \<in> set [0..size_x arg - 1]"
    "out_index_2d arg y x = out_index_2d arg y' x'"
  then show "y = y' \<and> x = x'"
    using out_index_2d_inj[OF assms(2), of x x' y y'] by auto
qed

lemma extract_3d_at:
  assumes "have_z arg" "tile_in_image arg"
    and "0 \<le> z" "z < size_z arg" "0 \<le> y" "y < size_y arg" "0 \<le> x" "x < size_x arg"
    and P: "\<And>z y x c. proj (pixel_3d arg vb z y x c) = (proj c)(out_index_3d arg z y x := val z y x)"
  shows "proj (extract_stats arg vb ctx) (out_index_3d arg z y x) = val z y x"
  unfolding extract_3d_fold[where proj = proj and val = val, OF assms(1) P]
proof (rule fold3_upd_apply)
  show "z \<in> set [0..size_z arg - 1]" "y \<in> set [0..size_y arg - 1]"
    "x \<in> set [0..size_x arg - 1]" using assms by auto
next
  fix z y x z' y' x'
  assume "z \<in> set [0..size_z arg - 1]" "y \<in> set [0..size_y arg - 1]"
    "x \<in> set [0..size_x arg - 1]" "z' \<in> set [0..size_z arg - 1]"
    "y' \<in> set [0..size_y arg - 1]" "x' \<in> set [0..size_x arg - 1]"
    "out_index_3d arg z y x = out_index_3d arg z' y' x'"
  then show "z = z' \<and> y = y' \<and> x = x'"
    using out_index_3d_inj[OF assms(2), of x x' y y' z z'] by auto
qed

lemma f4a_sum: "f4a (sum f A) = (\<Sum>x\<in>A. f4a (f x))"
  by (induction A rule: infinite_finite_induct) (simp_all add: zero_float4_def plus_float4_def)

lemma f4a_minus: "f4a (p - q) = f4a p - f4a q" and f4a_plus: "f4a (p + q) = f4a p + f4a q"
  by (simp_all add: minus_float4_def plus_float4_def)

lemma sat_planes_eq:
  "build_sat arg (zero_pad arg (load_pure sf arg vb0)) =
     (sat_plane arg (zero_plane arg (load_plane (cell_value sf arg) arg (fst vb0))),
      sat_plane arg (zero_plane arg (load_plane (cell_square sf arg) arg (snd vb0))))"
proof -
  have 1: "(\<lambda>z y x. the (cell sf arg z y x)) = cell_value sf arg"
    by (simp add: fun_eq_iff cell_value_def)
  have 2: "(\<lambda>z y x. the (cell sf arg z y x) * the (cell sf arg z y x)) = cell_square sf arg"
    by (simp add: fun_eq_iff cell_square_def cell_value_def)
  show ?thesis
    unfolding build_sat_planes zero_pad_planes load_pure_planes 1 2 by simp
qed

lemma corners_2d_sat:
  fixes R :: "int \<Rightarrow> int \<Rightarrow> int \<Rightarrow> 'a::ab_group_add"
  assumes nz: "\<not> have_z arg" and pz: "0 < padsize_z arg"
    and x: "0 \<le> xl" "xl \<le> xh" "xh < padsize_x arg"
    and y: "0 \<le> yl" "yl \<le> yh" "yh < padsize_y arg"
  shows "corners_2d arg (sat_plane arg (zero_plane arg (load_plane R arg v0))) yl yh xl xh =
           (\<Sum>y'\<in>{yl + 1..yh}. \<Sum>x'\<in>{xl + 1..xh}. R 0 y' x')"
proof -
  have S: "\<And>yc xc. 0 \<le> yc \<Longrightarrow> yc \<le> yh \<Longrightarrow> 0 \<le> xc \<Longrightarrow> xc \<le> xh \<Longrightarrow>
            sat_plane arg (zero_plane arg (load_plane R arg v0)) (VARBUF arg 0 yc xc) =
            (\<Sum>y'\<in>{1..yc}. \<Sum>x'\<in>{1..xc}. R 0 y' x')"
  proof -
    fix yc xc assume c: "0 \<le> yc" "yc \<le> yh" "0 \<le> xc" "xc \<le> xh"
    then have b: "in_box arg 0 yc xc" using pz x y by (simp add: in_box_def)
    have "(\<Sum>y'\<in>{1..yc}. \<Sum>x'\<in>{1..xc}. padded arg R 0 y' x') =
          (\<Sum>y'\<in>{1..yc}. \<Sum>x'\<in>{1..xc}. R 0 y' x')"
      using nz by (intro sum.cong refl) (simp add: padded_def)
    then show "sat_plane arg (zero_plane arg (load_plane R arg v0)) (VARBUF arg 0 yc xc) =
            (\<Sum>y'\<in>{1..yc}. \<Sum>x'\<in>{1..xc}. R 0 y' x')"
      using nz by (simp add: sat_plane_def sat_y_closed[OF b])
  qed
  show ?thesis
    unfolding corners_2d_def
    using S[of yl xl] S[of yl xh] S[of yh xl] S[of yh xh] x y
      corners_box_2d[OF x(1,2) y(1,2), of "R 0"]
    by simp
qed

lemma corners_3d_sat:
  fixes R :: "int \<Rightarrow> int \<Rightarrow> int \<Rightarrow> 'a::ab_group_add"
  assumes hz: "have_z arg"
    and x: "0 \<le> xl" "xl \<le> xh" "xh < padsize_x arg"
    and y: "0 \<le> yl" "yl \<le> yh" "yh < padsize_y arg"
    and z: "0 \<le> zl" "zl \<le> zh" "zh < padsize_z arg"
  shows "corners_3d arg (sat_plane arg (zero_plane arg (load_plane R arg v0))) zl zh yl yh xl xh =
           (\<Sum>z'\<in>{zl + 1..zh}. \<Sum>y'\<in>{yl + 1..yh}. \<Sum>x'\<in>{xl + 1..xh}. R z' y' x')"
proof -
  have S: "\<And>zc yc xc. 0 \<le> zc \<Longrightarrow> zc \<le> zh \<Longrightarrow> 0 \<le> yc \<Longrightarrow> yc \<le> yh \<Longrightarrow> 0 \<le> xc \<Longrightarrow> xc \<le> xh \<Longrightarrow>
            sat_plane arg (zero_plane arg (load_plane R arg v0)) (VARBUF arg zc yc xc) =
            (\<Sum>z'\<in>{1..zc}. \<Sum>y'\<in>{1..yc}. \<Sum>x'\<in>{1..xc}. R z' y' x')"
  proof -
    fix zc yc xc assume c: "0 \<le> zc" "zc \<le> zh" "0 \<le> yc" "yc \<le> yh" "0 \<le> xc" "xc \<le> xh"
    then have b: "in_box arg zc yc xc" using x y z by (simp add: in_box_def)
    have "(\<Sum>z'\<in>{1..zc}. \<Sum>y'\<in>{1..yc}. \<Sum>x'\<in>{1..xc}. padded arg R z' y' x') =
          (\<Sum>z'\<in>{1..zc}. \<Sum>y'\<in>{1..yc}. \<Sum>x'\<in>{1..xc}. R z' y' x')"
      by (intro sum.cong refl) (simp add: padded_def)
    then show "sat_plane arg (zero_plane arg (load_plane R arg v0)) (VARBUF arg zc yc xc) =
            (\<Sum>z'\<in>{1..zc}. \<Sum>y'\<in>{1..yc}. \<Sum>x'\<in>{1..xc}. R z' y' x')"
      using hz by (simp add: sat_plane_def sat_z_closed[OF b hz])
  qed
  show ?thesis
    unfolding corners_3d_def
    using S[of zl yl xl] S[of zl yl xh] S[of zl yh xl] S[of zl yh xh]
      S[of zh yl xl] S[of zh yl xh] S[of zh yh xl] S[of zh yh xh] x y z
      corners_box_3d[OF x(1,2) y(1,2) z(1,2), of R]
    by simp
qed

section \<open>The statistics of one tile in buffer coordinates\<close>

lemma corners_2d_f4a:
  "corners_2d arg (\<lambda>i. f4a (v i)) yl yh xl xh = f4a (corners_2d arg v yl yh xl xh)"
  by (simp add: corners_2d_def f4a_minus f4a_plus)

lemma corners_3d_f4a:
  "corners_3d arg (\<lambda>i. f4a (v i)) zl zh yl yh xl xh = f4a (corners_3d arg v zl zh yl yh xl xh)"
  by (simp add: corners_3d_def f4a_minus f4a_plus)

lemma window_in_buffer:
  assumes "0 \<le> avg_var_kernel_radius arg" "0 \<le> alpha_kernel_radius arg" "0 \<le> x" "x < n"
  shows "0 \<le> win_low arg (kernel_radius arg) x"
    "win_low arg (kernel_radius arg) x \<le> win_high arg (kernel_radius arg) x"
    "win_high arg (kernel_radius arg) x < n + kerneldim arg"
  using win_bounds[OF assms] by auto

lemma compute_eq:
  assumes "loads_ok sf arg"
  shows "compute_pixel_region_variance sf ctx arg =
           Some (extract_stats arg (build_sat arg (zero_pad arg (load_pure sf arg (work_memory arg)))) ctx,
                 build_sat arg (zero_pad arg (load_pure sf arg (work_memory arg))))"
  using assms by (simp add: compute_pixel_region_variance_def load_planes_eq Let_def)

lemma pixel_2d_fields:
  "input_averages (pixel_2d arg vb y x c) =
     (input_averages c)(out_index_2d arg y x :=
        average_of arg (corners_2d arg (fst vb)
          (win_low arg (kernel_radius_xy arg) y) (win_high arg (kernel_radius_xy arg) y)
          (win_low arg (kernel_radius_xy arg) x) (win_high arg (kernel_radius_xy arg) x)))"
  "input_variances (pixel_2d arg vb y x c) =
     (input_variances c)(out_index_2d arg y x :=
        variance_of arg
          (corners_2d arg (fst vb)
            (win_low arg (kernel_radius_xy arg) y) (win_high arg (kernel_radius_xy arg) y)
            (win_low arg (kernel_radius_xy arg) x) (win_high arg (kernel_radius_xy arg) x))
          (corners_2d arg (snd vb)
            (win_low arg (kernel_radius_xy arg) y) (win_high arg (kernel_radius_xy arg) y)
            (win_low arg (kernel_radius_xy arg) x) (win_high arg (kernel_radius_xy arg) x)))"
  "input_alpha_averages (pixel_2d arg vb y x c) =
     (input_alpha_averages c)(out_index_2d arg y x :=
        corners_2d arg (\<lambda>i. f4a (fst vb i))
          (win_low arg (kernel_radius_xy arg) y) (win_high arg (kernel_radius_xy arg) y)
          (win_low arg (kernel_radius_xy arg) x) (win_high arg (kernel_radius_xy arg) x)
        * alpha_rsamples arg)"
  by (simp_all add: pixel_2d_def Let_def emit_fields)

lemma region_2d_sums:
  assumes nz: "\<not> have_z arg"
    and r: "0 \<le> avg_var_kernel_radius arg" "0 \<le> alpha_kernel_radius arg"
    and sz: "1 \<le> size_z arg"
    and y: "0 \<le> y" "y < size_y arg" and x: "0 \<le> x" "x < size_x arg"
  shows "corners_2d arg (fst (build_sat arg (zero_pad arg (load_pure sf arg vb0))))
          (win_low arg (kernel_radius_xy arg) y) (win_high arg (kernel_radius_xy arg) y)
          (win_low arg (kernel_radius_xy arg) x) (win_high arg (kernel_radius_xy arg) x)
         = box_sum_2d arg (cell_value sf arg) y x"
    and "corners_2d arg (snd (build_sat arg (zero_pad arg (load_pure sf arg vb0))))
          (win_low arg (kernel_radius_xy arg) y) (win_high arg (kernel_radius_xy arg) y)
          (win_low arg (kernel_radius_xy arg) x) (win_high arg (kernel_radius_xy arg) x)
         = box_sum_2d arg (cell_square sf arg) y x"
proof -
  have pz: "0 < padsize_z arg" using sz nz by (simp add: padsize_z_def)
  note wx = window_in_buffer[OF r x, folded kernel_radius_xy_def padsize_x_def]
  note wy = window_in_buffer[OF r y, folded kernel_radius_xy_def padsize_y_def]
  show "corners_2d arg (fst (build_sat arg (zero_pad arg (load_pure sf arg vb0))))
          (win_low arg (kernel_radius_xy arg) y) (win_high arg (kernel_radius_xy arg) y)
          (win_low arg (kernel_radius_xy arg) x) (win_high arg (kernel_radius_xy arg) x)
         = box_sum_2d arg (cell_value sf arg) y x"
    unfolding sat_planes_eq fst_conv box_sum_2d_def
    by (rule corners_2d_sat[OF nz pz wx wy])
  show "corners_2d arg (snd (build_sat arg (zero_pad arg (load_pure sf arg vb0))))
          (win_low arg (kernel_radius_xy arg) y) (win_high arg (kernel_radius_xy arg) y)
          (win_low arg (kernel_radius_xy arg) x) (win_high arg (kernel_radius_xy arg) x)
         = box_sum_2d arg (cell_square sf arg) y x"
    unfolding sat_planes_eq snd_conv box_sum_2d_def
    by (rule corners_2d_sat[OF nz pz wx wy])
qed

lemma region_3d_sums:
  assumes hz: "have_z arg"
    and r: "0 \<le> avg_var_kernel_radius arg" "0 \<le> alpha_kernel_radius arg"
    and z: "0 \<le> z" "z < size_z arg"
    and y: "0 \<le> y" "y < size_y arg" and x: "0 \<le> x" "x < size_x arg"
  shows "corners_3d arg (fst (build_sat arg (zero_pad arg (load_pure sf arg vb0))))
          (win_low arg (kernel_radius_z arg) z) (win_high arg (kernel_radius_z arg) z)
          (win_low arg (kernel_radius_xy arg) y) (win_high arg (kernel_radius_xy arg) y)
          (win_low arg (kernel_radius_xy arg) x) (win_high arg (kernel_radius_xy arg) x)
         = box_sum_3d arg (cell_value sf arg) z y x"
    and "corners_3d arg (snd (build_sat arg (zero_pad arg (load_pure sf arg vb0))))
          (win_low arg (kernel_radius_z arg) z) (win_high arg (kernel_radius_z arg) z)
          (win_low arg (kernel_radius_xy arg) y) (win_high arg (kernel_radius_xy arg) y)
          (win_low arg (kernel_radius_xy arg) x) (win_high arg (kernel_radius_xy arg) x)
         = box_sum_3d arg (cell_square sf arg) z y x"
proof -
  have kz: "kernel_radius_z arg = kernel_radius arg" "padsize_z arg = size_z arg + kerneldim arg"
    using hz by (simp_all add: kernel_radius_z_def padsize_z_def)
  note wx = window_in_buffer[OF r x, folded kernel_radius_xy_def padsize_x_def]
  note wy = window_in_buffer[OF r y, folded kernel_radius_xy_def padsize_y_def]
  note wz = window_in_buffer[OF r z, folded kz]
  show "corners_3d arg (fst (build_sat arg (zero_pad arg (load_pure sf arg vb0))))
          (win_low arg (kernel_radius_z arg) z) (win_high arg (kernel_radius_z arg) z)
          (win_low arg (kernel_radius_xy arg) y) (win_high arg (kernel_radius_xy arg) y)
          (win_low arg (kernel_radius_xy arg) x) (win_high arg (kernel_radius_xy arg) x)
         = box_sum_3d arg (cell_value sf arg) z y x"
    unfolding sat_planes_eq fst_conv box_sum_3d_def
    by (rule corners_3d_sat[OF hz wx wy wz])
  show "corners_3d arg (snd (build_sat arg (zero_pad arg (load_pure sf arg vb0))))
          (win_low arg (kernel_radius_z arg) z) (win_high arg (kernel_radius_z arg) z)
          (win_low arg (kernel_radius_xy arg) y) (win_high arg (kernel_radius_xy arg) y)
          (win_low arg (kernel_radius_xy arg) x) (win_high arg (kernel_radius_xy arg) x)
         = box_sum_3d arg (cell_square sf arg) z y x"
    unfolding sat_planes_eq snd_conv box_sum_3d_def
    by (rule corners_3d_sat[OF hz wx wy wz])
qed

lemma pixel_3d_fields:
  "input_averages (pixel_3d arg vb z y x c) =
     (input_averages c)(out_index_3d arg z y x :=
        average_of arg (corners_3d arg (fst vb)
          (win_low arg (kernel_radius_z arg) z) (win_high arg (kernel_radius_z arg) z)
          (win_low arg (kernel_radius_xy arg) y) (win_high arg (kernel_radius_xy arg) y)
          (win_low arg (kernel_radius_xy arg) x) (win_high arg (kernel_radius_xy arg) x)))"
  "input_variances (pixel_3d arg vb z y x c) =
     (input_variances c)(out_index_3d arg z y x :=
        variance_of arg
          (corners_3d arg (fst vb)
            (win_low arg (kernel_radius_z arg) z) (win_high arg (kernel_radius_z arg) z)
            (win_low arg (kernel_radius_xy arg) y) (win_high arg (kernel_radius_xy arg) y)
            (win_low arg (kernel_radius_xy arg) x) (win_high arg (kernel_radius_xy arg) x))
          (corners_3d arg (snd vb)
            (win_low arg (kernel_radius_z arg) z) (win_high arg (kernel_radius_z arg) z)
            (win_low arg (kernel_radius_xy arg) y) (win_high arg (kernel_radius_xy arg) y)
            (win_low arg (kernel_radius_xy arg) x) (win_high arg (kernel_radius_xy arg) x)))"
  "input_alpha_averages (pixel_3d arg vb z y x c) =
     (input_alpha_averages c)(out_index_3d arg z y x :=
        corners_3d arg (\<lambda>i. f4a (fst vb i))
          (win_low arg (kernel_radius_z arg) z) (win_high arg (kernel_radius_z arg) z)
          (win_low arg (kernel_radius_xy arg) y) (win_high arg (kernel_radius_xy arg) y)
          (win_low arg (kernel_radius_xy arg) x) (win_high arg (kernel_radius_xy arg) x)
        * alpha_rsamples arg)"
  by (simp_all add: pixel_3d_def Let_def emit_fields)

lemma region_2d:
  assumes nz: "\<not> have_z arg" and ok: "loads_ok sf arg"
    and r: "0 \<le> avg_var_kernel_radius arg" "0 \<le> alpha_kernel_radius arg"
    and sz: "1 \<le> size_z arg" and ti: "tile_in_image arg"
    and y: "0 \<le> y" "y < size_y arg" and x: "0 \<le> x" "x < size_x arg"
  shows "map_option (\<lambda>r. input_averages (fst r) (out_index_2d arg y x))
           (compute_pixel_region_variance sf ctx arg) =
         Some (average_of arg (box_sum_2d arg (cell_value sf arg) y x))"
    and "map_option (\<lambda>r. input_variances (fst r) (out_index_2d arg y x))
           (compute_pixel_region_variance sf ctx arg) =
         Some (variance_of arg (box_sum_2d arg (cell_value sf arg) y x)
                 (box_sum_2d arg (cell_square sf arg) y x))"
    and "map_option (\<lambda>r. input_alpha_averages (fst r) (out_index_2d arg y x))
           (compute_pixel_region_variance sf ctx arg) =
         Some (f4a (box_sum_2d arg (cell_value sf arg) y x) * alpha_rsamples arg)"
proof -
  let ?sat = "build_sat arg (zero_pad arg (load_pure sf arg (work_memory arg)))"
  note S = region_2d_sums[OF nz r sz y x, of sf "work_memory arg"]
  have "input_averages (extract_stats arg ?sat ctx) (out_index_2d arg y x) =
        average_of arg (corners_2d arg (fst ?sat)
          (win_low arg (kernel_radius_xy arg) y) (win_high arg (kernel_radius_xy arg) y)
          (win_low arg (kernel_radius_xy arg) x) (win_high arg (kernel_radius_xy arg) x))"
    by (rule extract_2d_at[where proj = input_averages, OF nz ti y x]) (rule pixel_2d_fields(1))
  then show "map_option (\<lambda>r. input_averages (fst r) (out_index_2d arg y x))
           (compute_pixel_region_variance sf ctx arg) =
         Some (average_of arg (box_sum_2d arg (cell_value sf arg) y x))"
    unfolding compute_eq[OF ok] S by simp
  have "input_variances (extract_stats arg ?sat ctx) (out_index_2d arg y x) =
        variance_of arg
          (corners_2d arg (fst ?sat)
            (win_low arg (kernel_radius_xy arg) y) (win_high arg (kernel_radius_xy arg) y)
            (win_low arg (kernel_radius_xy arg) x) (win_high arg (kernel_radius_xy arg) x))
          (corners_2d arg (snd ?sat)
            (win_low arg (kernel_radius_xy arg) y) (win_high arg (kernel_radius_xy arg) y)
            (win_low arg (kernel_radius_xy arg) x) (win_high arg (kernel_radius_xy arg) x))"
    by (rule extract_2d_at[where proj = input_variances, OF nz ti y x]) (rule pixel_2d_fields(2))
  then show "map_option (\<lambda>r. input_variances (fst r) (out_index_2d arg y x))
           (compute_pixel_region_variance sf ctx arg) =
         Some (variance_of arg (box_sum_2d arg (cell_value sf arg) y x)
                 (box_sum_2d arg (cell_square sf arg) y x))"
    unfolding compute_eq[OF ok] S by simp
  have "input_alpha_averages (extract_stats arg ?sat ctx) (out_index_2d arg y x) =
        corners_2d arg (\<lambda>i. f4a (fst ?sat i))
          (win_low arg (kernel_radius_xy arg) y) (win_high arg (kernel_radius_xy arg) y)
          (win_low arg (kernel_radius_xy arg) x) (win_high arg (kernel_radius_xy arg) x)
        * alpha_rsamples arg"
    by (rule extract_2d_at[where proj = input_alpha_averages, OF nz ti y x])
      (rule pixel_2d_fields(3))
  then show "map_option (\<lambda>r. input_alpha_averages (fst r) (out_index_2d arg y x))
           (compute_pixel_region_variance sf ctx arg) =
         Some (f4a (box_sum_2d arg (cell_value sf arg) y x) * alpha_rsamples arg)"
    unfolding compute_eq[OF ok] corners_2d_f4a S by simp
qed

lemma region_3d:
  assumes hz: "have_z arg" and ok: "loads_ok sf arg"
    and r: "0 \<le> avg_var_kernel_radius arg" "0 \<le> alpha_kernel_radius arg"
    and ti: "tile_in_image arg"
    and z: "0 \<le> z" "z < size_z arg"
    and y: "0 \<le> y" "y < size_y arg" and x: "0 \<le> x" "x < size_x arg"
  shows "map_option (\<lambda>r. input_averages (fst r) (out_index_3d arg z y x))
           (compute_pixel_region_variance sf ctx arg) =
         Some (average_of arg (box_sum_3d arg (cell_value sf arg) z y x))"
    and "map_option (\<lambda>r. input_variances (fst r) (out_index_3d arg z y x))
           (compute_pixel_region_variance sf ctx arg) =
         Some (variance_of arg (box_sum_3d arg (cell_value sf arg) z y x)
                 (box_sum_3d arg (cell_square sf arg) z y x))"
    and "map_option (\<lambda>r. input_alpha_averages (fst r) (out_index_3d arg z y x))
           (compute_pixel_region_variance sf ctx arg) =
         Some (f4a (box_sum_3d arg (cell_value sf arg) z y x) * alpha_rsamples arg)"
proof -
  let ?sat = "build_sat arg (zero_pad arg (load_pure sf arg (work_memory arg)))"
  note S = region_3d_sums[OF hz r z y x, of sf "work_memory arg"]
  have "input_averages (extract_stats arg ?sat ctx) (out_index_3d arg z y x) =
        average_of arg (corners_3d arg (fst ?sat)
          (win_low arg (kernel_radius_z arg) z) (win_high arg (kernel_radius_z arg) z)
          (win_low arg (kernel_radius_xy arg) y) (win_high arg (kernel_radius_xy arg) y)
          (win_low arg (kernel_radius_xy arg) x) (win_high arg (kernel_radius_xy arg) x))"
    by (rule extract_3d_at[where proj = input_averages, OF hz ti z y x])
      (rule pixel_3d_fields(1))
  then show "map_option (\<lambda>r. input_averages (fst r) (out_index_3d arg z y x))
           (compute_pixel_region_variance sf ctx arg) =
         Some (average_of arg (box_sum_3d arg (cell_value sf arg) z y x))"
    unfolding compute_eq[OF ok] S by simp
  have "input_variances (extract_stats arg ?sat ctx) (out_index_3d arg z y x) =
        variance_of arg
          (corners_3d arg (fst ?sat)
            (win_low arg (kernel_radius_z arg) z) (win_high arg (kernel_radius_z arg) z)
            (win_low arg (kernel_radius_xy arg) y) (win_high arg (kernel_radius_xy arg) y)
            (win_low arg (kernel_radius_xy arg) x) (win_high arg (kernel_radius_xy arg) x))
          (corners_3d arg (snd ?sat)
            (win_low arg (kernel_radius_z arg) z) (win_high arg (kernel_radius_z arg) z)
            (win_low arg (kernel_radius_xy arg) y) (win_high arg (kernel_radius_xy arg) y)
            (win_low arg (kernel_radius_xy arg) x) (win_high arg (kernel_radius_xy arg) x))"
    by (rule extract_3d_at[where proj = input_variances, OF hz ti z y x])
      (rule pixel_3d_fields(2))
  then show "map_option (\<lambda>r. input_variances (fst r) (out_index_3d arg z y x))
           (compute_pixel_region_variance sf ctx arg) =
         Some (variance_of arg (box_sum_3d arg (cell_value sf arg) z y x)
                 (box_sum_3d arg (cell_square sf arg) z y x))"
    unfolding compute_eq[OF ok] S by simp
  have "input_alpha_averages (extract_stats arg ?sat ctx) (out_index_3d arg z y x) =
        corners_3d arg (\<lambda>i. f4a (fst ?sat i))
          (win_low arg (kernel_radius_z arg) z) (win_high arg (kernel_radius_z arg) z)
          (win_low arg (kernel_radius_xy arg) y) (win_high arg (kernel_radius_xy arg) y)
          (win_low arg (kernel_radius_xy arg) x) (win_high arg (kernel_radius_xy arg) x)
        * alpha_rsamples arg"
    by (rule extract_3d_at[where proj = input_alpha_averages, OF hz ti z y x])
      (rule pixel_3d_fields(3))
  then show "map_option (\<lambda>r. input_alpha_averages (fst r) (out_index_3d arg z y x))
           (compute_pixel_region_variance sf ctx arg) =
         Some (f4a (box_sum_3d arg (cell_value sf arg) z y x) * alpha_rsamples arg)"
    unfolding compute_eq[OF ok] corners_3d_f4a S by simp
qed

section \<open>The statistics of one tile in image coordinates\<close>

lemma sum_window_shift:
  fixes f :: "int \<Rightarrow> 'a::comm_monoid_add"
  shows "(\<Sum>x'\<in>{c - r + 1..c + r + 1}. f x') = (\<Sum>d\<in>{- r..r}. f (c + 1 + d))"
  by (rule sum.reindex_bij_witness[of _ "\<lambda>d. c + 1 + d" "\<lambda>x'. x' - c - 1"]) auto

lemma cell_value_src:
  "cell_value sf arg z' y' x' =
     texel_value sf arg (src_z arg z') (src_y arg y') (src_x arg x')"
  by (simp add: cell_value_def cell_def texel_value_def)

lemma box_sum_2d_window:
  assumes "\<not> have_z arg"
    and S: "\<And>z' y' x'. S z' y' x' = T (src_z arg z') (src_y arg y') (src_x arg x')"
  shows "box_sum_2d arg S y x = window_sum arg T z y x"
proof -
  have z: "src_z arg 0 = clamp_z arg (0 + offset_z arg + 0)"
    using assms(1) by (simp add: src_z_def clamp_z_def zd_start_def kernel_radius_z_def)
  have a: "\<And>v d. src_y arg (v + kernel_radius_xy arg + 1 + d) = clamp_y arg (v + offset_y arg + d)"
          "\<And>v d. src_x arg (v + kernel_radius_xy arg + 1 + d) = clamp_x arg (v + offset_x arg + d)"
    by (simp_all add: src_y_def src_x_def clamp_y_def clamp_x_def algebra_simps)
  have w: "\<And>v. win_low arg (kernel_radius_xy arg) v + 1 = (v + kernel_radius_xy arg) - alpha_kernel_radius arg + 1"
          "\<And>v. win_high arg (kernel_radius_xy arg) v = (v + kernel_radius_xy arg) + alpha_kernel_radius arg + 1"
    by (simp_all add: win_low_def win_high_def Let_def)
  show ?thesis
    unfolding box_sum_2d_def window_sum_def w sum_window_shift S z a
    using assms(1) by simp
qed

lemma box_sum_3d_window:
  assumes "have_z arg"
    and S: "\<And>z' y' x'. S z' y' x' = T (src_z arg z') (src_y arg y') (src_x arg x')"
  shows "box_sum_3d arg S z y x = window_sum arg T z y x"
proof -
  have a: "\<And>v d. src_y arg (v + kernel_radius_xy arg + 1 + d) = clamp_y arg (v + offset_y arg + d)"
          "\<And>v d. src_x arg (v + kernel_radius_xy arg + 1 + d) = clamp_x arg (v + offset_x arg + d)"
          "\<And>v d. src_z arg (v + kernel_radius_z arg + 1 + d) = clamp_z arg (v + offset_z arg + d)"
    using assms(1)
    by (simp_all add: src_y_def src_x_def src_z_def clamp_y_def clamp_x_def clamp_z_def
        zd_start_def algebra_simps)
  have w: "\<And>v k. win_low arg k v + 1 = (v + k) - alpha_kernel_radius arg + 1"
          "\<And>v k. win_high arg k v = (v + k) + alpha_kernel_radius arg + 1"
    by (simp_all add: win_low_def win_high_def Let_def)
  show ?thesis
    unfolding box_sum_3d_def window_sum_def w sum_window_shift S a
    using assms(1) by simp
qed

lemma cell_square_src:
  "cell_square sf arg z' y' x' =
     texel_square sf arg (src_z arg z') (src_y arg y') (src_x arg x')"
  by (simp add: cell_square_def texel_square_def cell_value_src)

lemma region:
  assumes ok: "loads_ok sf arg"
    and r: "0 \<le> avg_var_kernel_radius arg" "0 \<le> alpha_kernel_radius arg"
    and ti: "tile_in_image arg"
    and z: "0 \<le> z" "z < size_z arg"
    and y: "0 \<le> y" "y < size_y arg" and x: "0 \<le> x" "x < size_x arg"
  shows "map_option (\<lambda>r. input_averages (fst r) (out_index arg z y x))
           (compute_pixel_region_variance sf ctx arg) =
         Some (average_of arg (window_sum arg (texel_value sf arg) z y x))"
    and "map_option (\<lambda>r. input_variances (fst r) (out_index arg z y x))
           (compute_pixel_region_variance sf ctx arg) =
         Some (variance_of arg (window_sum arg (texel_value sf arg) z y x)
                 (window_sum arg (texel_square sf arg) z y x))"
    and "map_option (\<lambda>r. input_alpha_averages (fst r) (out_index arg z y x))
           (compute_pixel_region_variance sf ctx arg) =
         Some (f4a (window_sum arg (texel_value sf arg) z y x) * alpha_rsamples arg)"
proof -
  have sz: "1 \<le> size_z arg" using z by simp
  have A: "map_option (\<lambda>r. input_averages (fst r) (out_index arg z y x))
           (compute_pixel_region_variance sf ctx arg) =
         Some (average_of arg (window_sum arg (texel_value sf arg) z y x)) \<and>
        map_option (\<lambda>r. input_variances (fst r) (out_index arg z y x))
           (compute_pixel_region_variance sf ctx arg) =
         Some (variance_of arg (window_sum arg (texel_value sf arg) z y x)
                 (window_sum arg (texel_square sf arg) z y x)) \<and>
        map_option (\<lambda>r. input_alpha_averages (fst r) (out_index arg z y x))
           (compute_pixel_region_variance sf ctx arg) =
         Some (f4a (window_sum arg (texel_value sf arg) z y x) * alpha_rsamples arg)"
  proof (cases "have_z arg")
    case True
    have o: "out_index arg z y x = out_index_3d arg z y x" using True by (simp add: out_index_def)
    have v: "box_sum_3d arg (cell_value sf arg) z y x = window_sum arg (texel_value sf arg) z y x"
      by (rule box_sum_3d_window[OF True]) (rule cell_value_src)
    have q: "box_sum_3d arg (cell_square sf arg) z y x = window_sum arg (texel_square sf arg) z y x"
      by (rule box_sum_3d_window[OF True]) (rule cell_square_src)
    show ?thesis
      unfolding o using region_3d[OF True ok r ti z y x, of ctx] unfolding v q by simp
  next
    case False
    have o: "out_index arg z y x = out_index_2d arg y x" using False by (simp add: out_index_def)
    have v: "box_sum_2d arg (cell_value sf arg) y x = window_sum arg (texel_value sf arg) z y x"
      by (rule box_sum_2d_window[OF False]) (rule cell_value_src)
    have q: "box_sum_2d arg (cell_square sf arg) y x = window_sum arg (texel_square sf arg) z y x"
      by (rule box_sum_2d_window[OF False]) (rule cell_square_src)
    show ?thesis
      unfolding o using region_2d[OF False ok r sz ti y x, of ctx] unfolding v q by simp
  qed
  show "map_option (\<lambda>r. input_averages (fst r) (out_index arg z y x))
           (compute_pixel_region_variance sf ctx arg) =
         Some (average_of arg (window_sum arg (texel_value sf arg) z y x))"
    and "map_option (\<lambda>r. input_variances (fst r) (out_index arg z y x))
           (compute_pixel_region_variance sf ctx arg) =
         Some (variance_of arg (window_sum arg (texel_value sf arg) z y x)
                 (window_sum arg (texel_square sf arg) z y x))"
    and "map_option (\<lambda>r. input_alpha_averages (fst r) (out_index arg z y x))
           (compute_pixel_region_variance sf ctx arg) =
         Some (f4a (window_sum arg (texel_value sf arg) z y x) * alpha_rsamples arg)"
    using A by simp_all
qed

text \<open>No assertion can fail unless the data are 32-bit floats of a volumetric image.\<close>

lemma loads_ok_unless_f32_volume:
  assumes "case data (img arg) of ASTCENC_TYPE_F32 d \<Rightarrow> dim_z (img arg) \<le> 1 | _ \<Rightarrow> True"
  shows "loads_ok sf arg"
proof -
  have "\<And>z y x. cell sf arg z y x \<noteq> None"
    using assms
    by (auto simp: cell_def texel_def fetch_def fetch_u8_def fetch_f16_def fetch_f32_def
        src_z_def astc_clamp_def Let_def split: image_data.splits)
  then show ?thesis by (simp add: loads_ok_def)
qed

section \<open>The window of the RGBA sums\<close>


text \<open>
  C1. The claim is that the RGBA average is the sum over the window of radius
  \<open>avg_var_kernel_radius\<close>, divided by its number of samples. The code computes one
  pair of corners per axis, from \<open>alpha_kernel_radius\<close>, and reads the RGBA sums at
  those same corners, while it divides by the number of samples of the window of
  radius \<open>avg_var_kernel_radius\<close>. On the 3x3 image of ones with
  \<open>avg_var_kernel_radius = 1\<close> and \<open>alpha_kernel_radius = 0\<close>, the centre pixel
  (index 4) has nine ones in its 3x3 window, so its average should be 1; the code
  writes \<open>1 / 9\<close>: the sum over the one-cell alpha window, divided by 9.
\<close>

theorem rgba_average_read_from_alpha_window:
  "map_option (\<lambda>r. input_averages (fst r) 4)
     (compute_pixel_region_variance (\<lambda>h. 0) ctx_zero
        (tile_2d image_ones_3x3 1 1 identity_swz 1 0 3 3)) =
   Some (Float4 (1 / 9) (1 / 9) (1 / 9) (1 / 9))"
proof -
  let ?arg = "tile_2d image_ones_3x3 1 1 identity_swz 1 0 3 3"
  have ok: "loads_ok (\<lambda>h. 0) ?arg"
    by (rule loads_ok_unless_f32_volume) (simp add: tile_2d_def image_ones_3x3_def)
  have o: "out_index ?arg 0 1 1 = 4"
    by (simp add: out_index_def out_index_2d_def tile_2d_def image_ones_3x3_def ydt_def)
  have w: "window_sum ?arg (texel_value (\<lambda>h. 0) ?arg) 0 1 1 = Float4 1 1 1 1"
    by (simp add: window_sum_def texel_value_def texel_def fetch_def fetch_f32_def
        power_curve_def are_powers_1_def clamp_x_def clamp_y_def clamp_z_def astc_clamp_def
        tile_2d_def image_ones_3x3_def identity_swz_def needs_swz_def)
  have a: "average_of ?arg (Float4 1 1 1 1) = Float4 (1 / 9) (1 / 9) (1 / 9) (1 / 9)"
    by (simp add: average_of_def avg_var_rsamples_def avg_var_samples_def avg_var_kdim_def
        tile_2d_def splat_def times_float4_def)
  show ?thesis
    using region(1)[OF ok, of 0 1 1 ctx_zero] unfolding o w a
    by (simp add: tile_2d_def tile_in_image_def image_ones_3x3_def)
qed

section \<open>Radius zero\<close>

lemma zero_radius_consts:
  assumes "avg_var_kernel_radius arg = 0"
  shows "average_of arg v = v" "variance_of arg v (v * v) = 0"
proof -
  have s: "avg_var_samples arg = 1"
    using assms by (simp add: avg_var_samples_def avg_var_kdim_def)
  show "average_of arg v = v"
    by (cases v) (simp add: average_of_def avg_var_rsamples_def s splat_def times_float4_def)
  show "variance_of arg v (v * v) = 0"
    by (simp add: variance_of_def mul2_def mul1_def s)
qed

lemma clamp_id: "0 \<le> v \<Longrightarrow> v \<le> hi \<Longrightarrow> astc_clamp v 0 hi = v"
  by (simp add: astc_clamp_def)

text \<open>
  With both radii 0 and both power exponents 1, whenever no assertion fails, the
  call returns and, for every pixel \<open>(x, y, z)\<close> of a tile inside the image, the
  average it writes at the pixel's index is the value the sampling loop fetches at the
  pixel's own coordinate, and the variance it writes is 0 in every channel: the
  window is one cell, \<open>N = 1\<close>, \<open>mul1 = mul2 = 1\<close>, and the variance is
  \<open>d * d - d * d\<close>. In the 2D branch the pixel is in the plane \<open>offset_z\<close>.
\<close>

lemma zero_radius_average_is_fetch:
  assumes r: "avg_var_kernel_radius arg = 0" "alpha_kernel_radius arg = 0"
    and p: "rgb_power arg = 1" "alpha_power arg = 1"
    and ok: "loads_ok sf arg"
    and ti: "tile_in_image arg"
    and tz: "0 \<le> offset_z arg" "offset_z arg + size_z arg \<le> int (dim_z (img arg))"
    and z: "0 \<le> z" "z < size_z arg"
    and y: "0 \<le> y" "y < size_y arg" and x: "0 \<le> x" "x < size_x arg"
  shows "map_option (\<lambda>r. input_averages (fst r) (out_index arg z y x))
           (compute_pixel_region_variance sf ctx arg) =
         fetch sf arg ((if have_z arg then z else 0) + offset_z arg)
           (y + offset_y arg) (x + offset_x arg) \<and>
         map_option (\<lambda>r. input_variances (fst r) (out_index arg z y x))
           (compute_pixel_region_variance sf ctx arg) = Some 0"
proof -
  define zc where "zc = (if have_z arg then z else 0) + offset_z arg"
  have r0: "0 \<le> avg_var_kernel_radius arg" "0 \<le> alpha_kernel_radius arg" using r by simp_all
  have cz: "clamp_z arg zc = zc" using tz z by (auto simp: clamp_z_def zc_def intro!: clamp_id)
  have cy: "clamp_y arg (y + offset_y arg) = y + offset_y arg"
    using ti y by (auto simp: clamp_y_def tile_in_image_def intro!: clamp_id)
  have cx: "clamp_x arg (x + offset_x arg) = x + offset_x arg"
    using ti x by (auto simp: clamp_x_def tile_in_image_def intro!: clamp_id)
  have w: "\<And>S :: int \<Rightarrow> int \<Rightarrow> int \<Rightarrow> float4.
             window_sum arg S z y x = S zc (y + offset_y arg) (x + offset_x arg)"
    using cz cy cx unfolding zc_def by (cases "have_z arg") (simp_all add: window_sum_def r)
  have sq: "texel_square sf arg zc (y + offset_y arg) (x + offset_x arg) =
            texel_value sf arg zc (y + offset_y arg) (x + offset_x arg) *
            texel_value sf arg zc (y + offset_y arg) (x + offset_x arg)"
    by (simp add: texel_square_def)
  have c: "cell sf arg (if have_z arg then z + 1 else 0) (y + 1) (x + 1) \<noteq> None"
    using ok z y x r
    by (auto simp: loads_ok_def zd_start_def padsize_x_def padsize_y_def padsize_z_def
        kerneldim_def kernel_radius_def)
  have "cell sf arg (if have_z arg then z + 1 else 0) (y + 1) (x + 1) =
        texel sf arg zc (y + offset_y arg) (x + offset_x arg)"
    using cz cy cx r
    by (auto simp: cell_def src_x_def src_y_def src_z_def zc_def clamp_x_def clamp_y_def
        clamp_z_def zd_start_def kernel_radius_z_def kernel_radius_xy_def kernel_radius_def)
  then have "texel sf arg zc (y + offset_y arg) (x + offset_x arg) \<noteq> None" using c by simp
  then obtain d where d: "fetch sf arg zc (y + offset_y arg) (x + offset_x arg) = Some d"
    by (auto simp: texel_def)
  have tv: "texel_value sf arg zc (y + offset_y arg) (x + offset_x arg) = d"
    using d p by (simp add: texel_value_def texel_def power_curve_def are_powers_1_def)
  show ?thesis
    using region(1,2)[OF ok r0 ti z y x, of ctx]
    unfolding w sq zero_radius_consts[OF r(1)] tv d zc_def[symmetric] by simp
qed

section \<open>Windows at the boundary of the image\<close>

lemma of_nat_float4: "(of_nat n :: float4) = splat (real n)"
  by (induction n) (simp_all add: splat_def zero_float4_def one_float4_def plus_float4_def)





section \<open>A uniform image\<close>

text \<open>
  The sum of a constant over a window, and what the average and the variance make of
  it when the divisor is the number of cells.
\<close>

lemma splat_mult: "splat a * splat b = splat (a * b)"
  by (simp add: splat_def times_float4_def)

lemma window_sum_const:
  fixes S :: "int \<Rightarrow> int \<Rightarrow> int \<Rightarrow> float4"
  assumes r: "0 \<le> alpha_kernel_radius arg"
    and c: "\<And>zs ys xs. S (clamp_z arg zs) (clamp_y arg ys) (clamp_x arg xs) = c"
  shows "window_sum arg S z y x =
           splat (real_of_int (if have_z arg then alpha_kdim arg * alpha_kdim arg * alpha_kdim arg
                               else alpha_kdim arg * alpha_kdim arg)) * c"
proof -
  have k: "of_nat (nat (2 * alpha_kernel_radius arg + 1)) = splat (real_of_int (alpha_kdim arg))"
    using r by (simp add: of_nat_float4 alpha_kdim_def)
  show ?thesis
    unfolding window_sum_def c
    using r by (simp add: k splat_mult mult.assoc[symmetric] alpha_kdim_def)
qed

lemma clamp_in_image:
  assumes "1 \<le> hi"
  shows "0 \<le> astc_clamp v 0 (int hi - 1) \<and> astc_clamp v 0 (int hi - 1) < int hi"
  using assms by (auto simp: astc_clamp_def)

lemma average_of_const:
  assumes "avg_var_samples arg = n" "n \<noteq> 0"
  shows "average_of arg (splat n * c) = c"
  using assms
  by (cases c) (simp add: average_of_def avg_var_rsamples_def splat_def times_float4_def)

lemma variance_of_const:
  assumes "avg_var_samples arg = n"
  shows "variance_of arg (splat n * c) (splat n * (c * c)) = 0"
  using assms
  by (cases c)
    (simp add: variance_of_def mul2_def splat_def times_float4_def minus_float4_def
      zero_float4_def algebra_simps)

text \<open>
  C7, as stated, fails. The 2x2 image whose every channel is one half is a
  constant image, and the sampler fetches \<open>(1/2, 1/2, 1/2, 1/2)\<close> at each of its four
  pixels; with both power exponents 2 and both radii 0 the average written for the
  pixel \<open>(0, 0)\<close> is \<open>(1/4, 1/4, 1/4, 1/4)\<close>, the colour through the power block.
\<close>

theorem uniform_image_power_curve_counterexample:
  "fetch (\<lambda>h. 0) (tile_2d image_half_2x2 2 2 identity_swz 0 0 2 2) 0 0 0
     = Some (Float4 (1 / 2) (1 / 2) (1 / 2) (1 / 2)) \<and>
   fetch (\<lambda>h. 0) (tile_2d image_half_2x2 2 2 identity_swz 0 0 2 2) 0 0 1
     = Some (Float4 (1 / 2) (1 / 2) (1 / 2) (1 / 2)) \<and>
   fetch (\<lambda>h. 0) (tile_2d image_half_2x2 2 2 identity_swz 0 0 2 2) 0 1 0
     = Some (Float4 (1 / 2) (1 / 2) (1 / 2) (1 / 2)) \<and>
   fetch (\<lambda>h. 0) (tile_2d image_half_2x2 2 2 identity_swz 0 0 2 2) 0 1 1
     = Some (Float4 (1 / 2) (1 / 2) (1 / 2) (1 / 2)) \<and>
   map_option (\<lambda>r. input_averages (fst r) 0)
     (compute_pixel_region_variance (\<lambda>h. 0) ctx_zero
        (tile_2d image_half_2x2 2 2 identity_swz 0 0 2 2))
     = Some (Float4 (1 / 4) (1 / 4) (1 / 4) (1 / 4))"
proof -
  let ?arg = "tile_2d image_half_2x2 2 2 identity_swz 0 0 2 2"
  have ok: "loads_ok (\<lambda>h. 0) ?arg"
    by (rule loads_ok_unless_f32_volume) (simp add: tile_2d_def image_half_2x2_def)
  have o: "out_index ?arg 0 0 0 = 0"
    by (simp add: out_index_def out_index_2d_def tile_2d_def image_half_2x2_def ydt_def)
  have f: "fetch (\<lambda>h. 0) ?arg 0 0 0 = Some (Float4 (1 / 2) (1 / 2) (1 / 2) (1 / 2))"
    "fetch (\<lambda>h. 0) ?arg 0 0 1 = Some (Float4 (1 / 2) (1 / 2) (1 / 2) (1 / 2))"
    "fetch (\<lambda>h. 0) ?arg 0 1 0 = Some (Float4 (1 / 2) (1 / 2) (1 / 2) (1 / 2))"
    "fetch (\<lambda>h. 0) ?arg 0 1 1 = Some (Float4 (1 / 2) (1 / 2) (1 / 2) (1 / 2))"
    by (simp_all add: fetch_def fetch_f32_def tile_2d_def image_half_2x2_def identity_swz_def
        needs_swz_def)
  have h: "max (1 / 2) (1 / 1000000 :: real) powr 2 = 1 / 4"
    by (simp add: power2_eq_square)
  have t: "texel_value (\<lambda>h. 0) ?arg 0 0 0 = Float4 (1 / 4) (1 / 4) (1 / 4) (1 / 4)"
    unfolding texel_value_def texel_def f
    using h by (simp add: power_curve_def are_powers_1_def tile_2d_def)
  have c: "clamp_x ?arg 0 = 0" "clamp_y ?arg 0 = 0" "clamp_z ?arg 0 = 0"
    by (simp_all add: clamp_x_def clamp_y_def clamp_z_def astc_clamp_def tile_2d_def
        image_half_2x2_def)
  have w: "window_sum ?arg (texel_value (\<lambda>h. 0) ?arg) 0 0 0
             = Float4 (1 / 4) (1 / 4) (1 / 4) (1 / 4)"
    using c t by (simp add: window_sum_def tile_2d_def)
  have a: "\<And>v. average_of ?arg v = v"
    by (simp add: average_of_def avg_var_rsamples_def avg_var_samples_def avg_var_kdim_def
        tile_2d_def splat_def times_float4_def)
  have "map_option (\<lambda>r. input_averages (fst r) 0)
     (compute_pixel_region_variance (\<lambda>h. 0) ctx_zero ?arg)
       = Some (Float4 (1 / 4) (1 / 4) (1 / 4) (1 / 4))"
    using region(1)[OF ok, of 0 0 0 ctx_zero] unfolding o w a
    by (simp add: tile_2d_def tile_in_image_def image_half_2x2_def)
  then show ?thesis using f by simp
qed

text \<open>
  C7, amended. If the sampler fetches the same colour \<open>c\<close> at every pixel of the
  image, both power exponents are 1 and the two radii are the same \<open>R \<ge> 0\<close>, then the
  call returns and, for every pixel of a tile inside the image, at the boundary or
  not, the average it writes is \<open>c\<close> and the variance it writes is 0 in every
  channel. The radius need not be bounded by the dimensions of the image.
\<close>

theorem uniform_image_invariance:
  assumes const: "\<And>zs ys xs. 0 \<le> zs \<Longrightarrow> zs < int (dim_z (img arg)) \<Longrightarrow>
                     0 \<le> ys \<Longrightarrow> ys < int (dim_y (img arg)) \<Longrightarrow>
                     0 \<le> xs \<Longrightarrow> xs < int (dim_x (img arg)) \<Longrightarrow>
                     fetch sf arg zs ys xs = Some c"
    and dims: "1 \<le> dim_x (img arg)" "1 \<le> dim_y (img arg)" "1 \<le> dim_z (img arg)"
    and p: "rgb_power arg = 1" "alpha_power arg = 1"
    and r: "avg_var_kernel_radius arg = alpha_kernel_radius arg" "0 \<le> alpha_kernel_radius arg"
    and ti: "tile_in_image arg"
    and z: "0 \<le> z" "z < size_z arg"
    and y: "0 \<le> y" "y < size_y arg" and x: "0 \<le> x" "x < size_x arg"
  shows "map_option (\<lambda>r. input_averages (fst r) (out_index arg z y x))
           (compute_pixel_region_variance sf ctx arg) = Some c \<and>
         map_option (\<lambda>r. input_variances (fst r) (out_index arg z y x))
           (compute_pixel_region_variance sf ctx arg) = Some 0"
proof -
  define n where "n = real_of_int (if have_z arg
      then alpha_kdim arg * alpha_kdim arg * alpha_kdim arg else alpha_kdim arg * alpha_kdim arg)"
  have r0: "0 \<le> avg_var_kernel_radius arg" using r by simp
  have tx: "\<And>zs ys xs. texel sf arg (astc_clamp zs 0 (int (dim_z (img arg)) - 1))
              (astc_clamp ys 0 (int (dim_y (img arg)) - 1))
              (astc_clamp xs 0 (int (dim_x (img arg)) - 1)) = Some c"
    using const clamp_in_image[OF dims(1)] clamp_in_image[OF dims(2)] clamp_in_image[OF dims(3)] p
    by (simp add: texel_def power_curve_def are_powers_1_def)
  have ok: "loads_ok sf arg"
    by (simp add: loads_ok_def cell_def src_x_def src_y_def src_z_def tx)
  have tv: "\<And>zs ys xs. texel_value sf arg (clamp_z arg zs) (clamp_y arg ys) (clamp_x arg xs) = c"
    by (simp add: texel_value_def clamp_x_def clamp_y_def clamp_z_def tx)
  have ts: "\<And>zs ys xs. texel_square sf arg (clamp_z arg zs) (clamp_y arg ys) (clamp_x arg xs)
              = c * c"
    by (simp add: texel_square_def tv)
  have w1: "window_sum arg (texel_value sf arg) z y x = splat n * c"
    unfolding n_def by (rule window_sum_const[OF r(2)]) (rule tv)
  have w2: "window_sum arg (texel_square sf arg) z y x = splat n * (c * c)"
    unfolding n_def by (rule window_sum_const[OF r(2)]) (rule ts)
  have k: "0 < alpha_kdim arg" using r by (simp add: alpha_kdim_def)
  have N: "avg_var_samples arg = n"
    by (simp add: avg_var_samples_def n_def avg_var_kdim_def alpha_kdim_def r)
  have n0: "n \<noteq> 0" using k by (simp add: n_def)
  show ?thesis
    using region(1,2)[OF ok r0 r(2) ti z y x, of ctx]
    unfolding w1 w2 average_of_const[OF N n0] variance_of_const[OF N] by simp
qed

text \<open>
  The pixel \<open>(1, 1)\<close> of the 2x2 image of one half, with both radii 1: every window
  reaches over the edge of the image.
\<close>

theorem uniform_image_invariance_witness:
  "map_option (\<lambda>r. input_averages (fst r) 3)
     (compute_pixel_region_variance (\<lambda>h. 0) ctx_zero
        (tile_2d image_half_2x2 1 1 identity_swz 1 1 2 2))
     = Some (Float4 (1 / 2) (1 / 2) (1 / 2) (1 / 2)) \<and>
   map_option (\<lambda>r. input_variances (fst r) 3)
     (compute_pixel_region_variance (\<lambda>h. 0) ctx_zero
        (tile_2d image_half_2x2 1 1 identity_swz 1 1 2 2)) = Some 0"
proof -
  let ?arg = "tile_2d image_half_2x2 1 1 identity_swz 1 1 2 2"
  have o: "out_index ?arg 0 1 1 = 3"
    by (simp add: out_index_def out_index_2d_def tile_2d_def image_half_2x2_def ydt_def)
  have f: "\<And>zs ys xs. 0 \<le> zs \<Longrightarrow> zs < int (dim_z (img ?arg)) \<Longrightarrow>
                     0 \<le> ys \<Longrightarrow> ys < int (dim_y (img ?arg)) \<Longrightarrow>
                     0 \<le> xs \<Longrightarrow> xs < int (dim_x (img ?arg)) \<Longrightarrow>
             fetch (\<lambda>h. 0) ?arg zs ys xs = Some (Float4 (1 / 2) (1 / 2) (1 / 2) (1 / 2))"
  proof -
    fix zs ys xs :: int
    assume "0 \<le> zs" "zs < int (dim_z (img ?arg))" "0 \<le> ys" "ys < int (dim_y (img ?arg))"
      "0 \<le> xs" "xs < int (dim_x (img ?arg))"
    then have "zs = 0" "nat (ys * 2 + xs) < 4"
      by (simp_all add: tile_2d_def image_half_2x2_def)
    then show "fetch (\<lambda>h. 0) ?arg zs ys xs = Some (Float4 (1 / 2) (1 / 2) (1 / 2) (1 / 2))"
      by (simp add: fetch_def fetch_f32_def tile_2d_def image_half_2x2_def identity_swz_def
          needs_swz_def)
  qed
  show ?thesis
    using uniform_image_invariance[OF f, of 0 1 1 ctx_zero] unfolding o
    by (simp add: tile_2d_def tile_in_image_def image_half_2x2_def)
qed

section \<open>Exchanging two selectors of the swizzle\<close>

text \<open>
  Swapping two channels goes through the component-wise arithmetic of the
  accumulators.
\<close>

lemma float4_eqI: "(\<And>k. channel_of u k = channel_of v k) \<Longrightarrow> u = v"
proof -
  assume a: "\<And>k. channel_of u k = channel_of v k"
  show "u = v"
    using a[of Chan_R] a[of Chan_G] a[of Chan_B] a[of Chan_A] by (cases u, cases v) simp
qed

lemma channel_of_swap [simp]:
  "channel_of (swap_channels i j v) k = channel_of v (exchange i j k)"
  by (cases k) (simp_all add: swap_channels_def)

lemma channel_of_arith [simp]:
  "channel_of (u + v) k = channel_of u k + channel_of v k"
  "channel_of (u - v) k = channel_of u k - channel_of v k"
  "channel_of (u * v) k = channel_of u k * channel_of v k"
  "channel_of (splat s) k = s"
  "channel_of 0 k = 0"
  by (cases k; simp add: plus_float4_def minus_float4_def times_float4_def splat_def
      zero_float4_def)+

lemma channel_of_sum: "channel_of (sum f A) k = (\<Sum>x\<in>A. channel_of (f x) k)"
  by (induction A rule: infinite_finite_induct) simp_all

lemma swap_channels_arith:
  "swap_channels i j (u + v) = swap_channels i j u + swap_channels i j v"
  "swap_channels i j (u - v) = swap_channels i j u - swap_channels i j v"
  "swap_channels i j (u * v) = swap_channels i j u * swap_channels i j v"
  "swap_channels i j (splat s) = splat s"
  by (rule float4_eqI, simp)+

lemma swap_channels_sum: "swap_channels i j (sum f A) = (\<Sum>x\<in>A. swap_channels i j (f x))"
  by (rule float4_eqI) (simp add: channel_of_sum)

text \<open>The three sampling paths apply the swizzle, whatever \<open>needs_swz\<close> says.\<close>

lemma fetch_u8_swizzled:
  "fetch_u8 arg data8 z_src y_src x_src =
     (let px = (y_src * int (dim_x (img arg)) + x_src) * 4;
          r = data8 ! nat (px + 0); g = data8 ! nat (px + 1);
          b = data8 ! nat (px + 2); a = data8 ! nat (px + 3)
      in Some (Float4 (real (unat (swz_data r g b a 0 255 (swz_r (swz arg)))))
                      (real (unat (swz_data r g b a 0 255 (swz_g (swz arg)))))
                      (real (unat (swz_data r g b a 0 255 (swz_b (swz arg)))))
                      (real (unat (swz_data r g b a 0 255 (swz_a (swz arg))))) * splat (1 / 255)))"
  by (cases "needs_swz (swz arg)") (auto simp: fetch_u8_def Let_def needs_swz_def)

lemma fetch_f32_swizzled:
  "fetch_f32 arg data32 z_src y_src x_src =
     (if z_src \<noteq> 0 then None
      else let d = data32 ! nat (y_src * int (dim_x (img arg)) + x_src)
           in Some (Float4 (swz_data (f4r d) (f4g d) (f4b d) (f4a d) 0 1 (swz_r (swz arg)))
                           (swz_data (f4r d) (f4g d) (f4b d) (f4a d) 0 1 (swz_g (swz arg)))
                           (swz_data (f4r d) (f4g d) (f4b d) (f4a d) 0 1 (swz_b (swz arg)))
                           (swz_data (f4r d) (f4g d) (f4b d) (f4a d) 0 1 (swz_a (swz arg)))))"
  by (cases "needs_swz (swz arg)") (auto simp: fetch_f32_def Let_def needs_swz_def)

lemma swap_Float4:
  "swap_channels i j (Float4 (f (selector sw Chan_R)) (f (selector sw Chan_G))
                             (f (selector sw Chan_B)) (f (selector sw Chan_A))) =
   Float4 (f (selector (swap_selectors i j sw) Chan_R)) (f (selector (swap_selectors i j sw) Chan_G))
          (f (selector (swap_selectors i j sw) Chan_B)) (f (selector (swap_selectors i j sw) Chan_A))"
  by (cases i; cases j; simp add: swap_channels_def swap_selectors_def exchange_def)

lemma fetch_swap:
  "fetch sf (arg\<lparr>swz := swap_selectors i j (swz arg)\<rparr>) z_src y_src x_src =
     map_option (swap_channels i j) (fetch sf arg z_src y_src x_src)"
proof (cases "data (img arg)")
  case (ASTCENC_TYPE_U8 data8)
  show ?thesis
    using swap_Float4[of i j "\<lambda>s. real (unat (swz_data
        (data8 ! nat ((y_src * int (dim_x (img arg)) + x_src) * 4 + 0))
        (data8 ! nat ((y_src * int (dim_x (img arg)) + x_src) * 4 + 1))
        (data8 ! nat ((y_src * int (dim_x (img arg)) + x_src) * 4 + 2))
        (data8 ! nat ((y_src * int (dim_x (img arg)) + x_src) * 4 + 3)) 0 255 s))" "swz arg"]
    by (simp add: fetch_def ASTCENC_TYPE_U8 fetch_u8_swizzled Let_def swap_channels_arith)
next
  case (ASTCENC_TYPE_F16 data16)
  show ?thesis
    using swap_Float4[of i j "\<lambda>s. sf (swz_data
        (data16 ! nat z_src ! nat y_src ! nat (4 * x_src))
        (data16 ! nat z_src ! nat y_src ! nat (4 * x_src + 1))
        (data16 ! nat z_src ! nat y_src ! nat (4 * x_src + 2))
        (data16 ! nat z_src ! nat y_src ! nat (4 * x_src + 3)) 0 0x3C00 s)" "swz arg"]
    by (simp add: fetch_def ASTCENC_TYPE_F16 fetch_f16_def Let_def)
next
  case (ASTCENC_TYPE_F32 data32)
  show ?thesis
    using swap_Float4[of i j "\<lambda>s. swz_data
        (f4r (data32 ! nat (y_src * int (dim_x (img arg)) + x_src)))
        (f4g (data32 ! nat (y_src * int (dim_x (img arg)) + x_src)))
        (f4b (data32 ! nat (y_src * int (dim_x (img arg)) + x_src)))
        (f4a (data32 ! nat (y_src * int (dim_x (img arg)) + x_src))) 0 1 s" "swz arg"]
    by (simp add: fetch_def ASTCENC_TYPE_F32 fetch_f32_swizzled Let_def)
qed

text \<open>
  The power block raises r, g and b to \<open>rgb_power\<close> and a to \<open>alpha_power\<close>: it goes
  through a swap of two colour channels, and through a swap with alpha when the two
  exponents are the same.
\<close>

lemma power_curve_swap:
  assumes "i \<noteq> Chan_A \<and> j \<noteq> Chan_A \<or> rgb_power arg = alpha_power arg"
  shows "power_curve (arg\<lparr>swz := sw\<rparr>) (swap_channels i j d) = swap_channels i j (power_curve arg d)"
  using assms
  by (cases i; cases j; simp add: power_curve_def are_powers_1_def swap_channels_def exchange_def)

lemma texel_swap:
  assumes "i \<noteq> Chan_A \<and> j \<noteq> Chan_A \<or> rgb_power arg = alpha_power arg"
  shows "texel sf (arg\<lparr>swz := swap_selectors i j (swz arg)\<rparr>) z_src y_src x_src =
           map_option (swap_channels i j) (texel sf arg z_src y_src x_src)"
  by (simp add: texel_def fetch_swap option.map_comp comp_def power_curve_swap[OF assms])

text \<open>
  Every texel of a window was sampled into the work buffer, so no assertion failed
  on it.
\<close>

lemma window_loaded:
  assumes ok: "loads_ok sf arg"
    and r: "0 \<le> avg_var_kernel_radius arg" "0 \<le> alpha_kernel_radius arg"
    and z: "0 \<le> z" "z < size_z arg"
    and y: "0 \<le> y" "y < size_y arg" and x: "0 \<le> x" "x < size_x arg"
    and dz: "dz \<in> (if have_z arg then {- alpha_kernel_radius arg..alpha_kernel_radius arg} else {0})"
    and dy: "dy \<in> {- alpha_kernel_radius arg..alpha_kernel_radius arg}"
    and dx: "dx \<in> {- alpha_kernel_radius arg..alpha_kernel_radius arg}"
  shows "texel sf arg (clamp_z arg ((if have_z arg then z else 0) + offset_z arg + dz))
           (clamp_y arg (y + offset_y arg + dy)) (clamp_x arg (x + offset_x arg + dx)) \<noteq> None"
proof -
  define z' where "z' = (if have_z arg then z + kernel_radius arg + 1 + dz else 0)"
  define y' where "y' = y + kernel_radius arg + 1 + dy"
  define x' where "x' = x + kernel_radius arg + 1 + dx"
  have k: "alpha_kernel_radius arg \<le> kernel_radius arg" by (simp add: kernel_radius_def)
  have "z' \<in> set [zd_start arg..padsize_z arg - 1]"
    using z dz k by (auto simp: z'_def zd_start_def padsize_z_def kerneldim_def)
  moreover have "y' \<in> set [1..padsize_y arg - 1]"
    using y dy k by (auto simp: y'_def padsize_y_def kerneldim_def)
  moreover have "x' \<in> set [1..padsize_x arg - 1]"
    using x dx k by (auto simp: x'_def padsize_x_def kerneldim_def)
  ultimately have "cell sf arg z' y' x' \<noteq> None" using ok by (simp add: loads_ok_def)
  moreover have "src_z arg z' = clamp_z arg ((if have_z arg then z else 0) + offset_z arg + dz)"
    using dz by (auto simp: src_z_def clamp_z_def z'_def zd_start_def kernel_radius_z_def
        algebra_simps)
  moreover have "src_y arg y' = clamp_y arg (y + offset_y arg + dy)"
    by (simp add: src_y_def clamp_y_def y'_def kernel_radius_xy_def algebra_simps)
  moreover have "src_x arg x' = clamp_x arg (x + offset_x arg + dx)"
    by (simp add: src_x_def clamp_x_def x'_def kernel_radius_xy_def algebra_simps)
  ultimately show ?thesis by (simp add: cell_def)
qed


text \<open>
  The geometry of a tile does not depend on the swizzle.
\<close>

lemma swz_irrelevant:
  "kernel_radius (arg\<lparr>swz := sw\<rparr>) = kernel_radius arg"
  "kerneldim (arg\<lparr>swz := sw\<rparr>) = kerneldim arg"
  "kernel_radius_xy (arg\<lparr>swz := sw\<rparr>) = kernel_radius_xy arg"
  "kernel_radius_z (arg\<lparr>swz := sw\<rparr>) = kernel_radius_z arg"
  "padsize_x (arg\<lparr>swz := sw\<rparr>) = padsize_x arg"
  "padsize_y (arg\<lparr>swz := sw\<rparr>) = padsize_y arg"
  "padsize_z (arg\<lparr>swz := sw\<rparr>) = padsize_z arg"
  "zd_start (arg\<lparr>swz := sw\<rparr>) = zd_start arg"
  "src_x (arg\<lparr>swz := sw\<rparr>) = src_x arg"
  "src_y (arg\<lparr>swz := sw\<rparr>) = src_y arg"
  "src_z (arg\<lparr>swz := sw\<rparr>) = src_z arg"
  "clamp_x (arg\<lparr>swz := sw\<rparr>) = clamp_x arg"
  "clamp_y (arg\<lparr>swz := sw\<rparr>) = clamp_y arg"
  "clamp_z (arg\<lparr>swz := sw\<rparr>) = clamp_z arg"
  "out_index (arg\<lparr>swz := sw\<rparr>) = out_index arg"
  "average_of (arg\<lparr>swz := sw\<rparr>) = average_of arg"
  "variance_of (arg\<lparr>swz := sw\<rparr>) = variance_of arg"
  "tile_in_image (arg\<lparr>swz := sw\<rparr>) = tile_in_image arg"
  by (simp_all add: fun_eq_iff kernel_radius_def kerneldim_def kernel_radius_xy_def
      kernel_radius_z_def padsize_x_def padsize_y_def padsize_z_def zd_start_def src_x_def
      src_y_def src_z_def clamp_x_def clamp_y_def clamp_z_def out_index_def out_index_2d_def
      out_index_3d_def ydt_def zdt_def average_of_def variance_of_def avg_var_rsamples_def
      avg_var_samples_def avg_var_kdim_def mul1_def mul2_def tile_in_image_def)

lemma window_sum_swz: "window_sum (arg\<lparr>swz := sw\<rparr>) S z y x = window_sum arg S z y x"
  by (simp add: window_sum_def swz_irrelevant)

lemma window_sum_cong:
  assumes "\<And>dz dy dx.
      dz \<in> (if have_z arg then {- alpha_kernel_radius arg..alpha_kernel_radius arg} else {0}) \<Longrightarrow>
      dy \<in> {- alpha_kernel_radius arg..alpha_kernel_radius arg} \<Longrightarrow>
      dx \<in> {- alpha_kernel_radius arg..alpha_kernel_radius arg} \<Longrightarrow>
      S (clamp_z arg ((if have_z arg then z else 0) + offset_z arg + dz))
        (clamp_y arg (y + offset_y arg + dy)) (clamp_x arg (x + offset_x arg + dx)) =
      T (clamp_z arg ((if have_z arg then z else 0) + offset_z arg + dz))
        (clamp_y arg (y + offset_y arg + dy)) (clamp_x arg (x + offset_x arg + dx))"
  shows "window_sum arg S z y x = window_sum arg T z y x"
  unfolding window_sum_def
  by (intro sum.cong refl) (rule assms)

lemma window_sum_swap:
  fixes S :: "int \<Rightarrow> int \<Rightarrow> int \<Rightarrow> float4"
  shows "swap_channels i j (window_sum arg S z y x) =
           window_sum arg (\<lambda>zs ys xs. swap_channels i j (S zs ys xs)) z y x"
  by (simp add: window_sum_def swap_channels_sum)

text \<open>
  C8, as stated, fails. The 1x1 image with the pixel \<open>(1/2, 1/2, 1/2, 1/4)\<close>, with
  \<open>rgb_power = 1\<close>, \<open>alpha_power = 2\<close> and both radii 0: under the identity swizzle
  the average is \<open>(1/2, 1/2, 1/2, 1/16)\<close>, which with red and alpha swapped is
  \<open>(1/16, 1/2, 1/2, 1/2)\<close>; under the swizzle with the selectors of red and alpha
  exchanged it is \<open>(1/4, 1/2, 1/2, 1/4)\<close>. The power block runs after the swizzle,
  with the exponent of the channel the value has arrived in.
\<close>

theorem swizzle_exchange_power_counterexample:
  "map_option (\<lambda>r. input_averages (fst r) 0)
     (compute_pixel_region_variance (\<lambda>h. 0) ctx_zero
        (tile_2d image_grey_pixel 1 2 identity_swz 0 0 1 1))
     = Some (Float4 (1 / 2) (1 / 2) (1 / 2) (1 / 16)) \<and>
   swap_channels Chan_R Chan_A (Float4 (1 / 2) (1 / 2) (1 / 2) (1 / 16))
     = Float4 (1 / 16) (1 / 2) (1 / 2) (1 / 2) \<and>
   map_option (\<lambda>r. input_averages (fst r) 0)
     (compute_pixel_region_variance (\<lambda>h. 0) ctx_zero
        (tile_2d image_grey_pixel 1 2 (swap_selectors Chan_R Chan_A identity_swz) 0 0 1 1))
     = Some (Float4 (1 / 4) (1 / 2) (1 / 2) (1 / 4))"
proof -
  let ?arg1 = "tile_2d image_grey_pixel 1 2 identity_swz 0 0 1 1"
  let ?arg2 = "tile_2d image_grey_pixel 1 2 (swap_selectors Chan_R Chan_A identity_swz) 0 0 1 1"
  have ok: "loads_ok (\<lambda>h. 0) ?arg1" "loads_ok (\<lambda>h. 0) ?arg2"
    by (rule loads_ok_unless_f32_volume, simp add: tile_2d_def image_grey_pixel_def)+
  have o: "out_index ?arg1 0 0 0 = 0" "out_index ?arg2 0 0 0 = 0"
    by (simp_all add: out_index_def out_index_2d_def tile_2d_def image_grey_pixel_def ydt_def)
  have h: "max (1 / 4) (1 / 1000000 :: real) powr 2 = 1 / 16"
    "max (1 / 2) (1 / 1000000 :: real) powr 2 = 1 / 4"
    by (simp_all add: power2_eq_square)
  have t1: "texel_value (\<lambda>h. 0) ?arg1 0 0 0 = Float4 (1 / 2) (1 / 2) (1 / 2) (1 / 16)"
    using h by (simp add: texel_value_def texel_def fetch_def fetch_f32_def power_curve_def
        are_powers_1_def tile_2d_def image_grey_pixel_def identity_swz_def needs_swz_def)
  have t2: "texel_value (\<lambda>h. 0) ?arg2 0 0 0 = Float4 (1 / 4) (1 / 2) (1 / 2) (1 / 4)"
    using h by (simp add: texel_value_def texel_def fetch_def fetch_f32_def power_curve_def
        are_powers_1_def tile_2d_def image_grey_pixel_def identity_swz_def needs_swz_def
        swap_selectors_def exchange_def)
  have c: "clamp_x ?arg1 0 = 0" "clamp_y ?arg1 0 = 0" "clamp_z ?arg1 0 = 0"
    "clamp_x ?arg2 0 = 0" "clamp_y ?arg2 0 = 0" "clamp_z ?arg2 0 = 0"
    by (simp_all add: clamp_x_def clamp_y_def clamp_z_def astc_clamp_def tile_2d_def
        image_grey_pixel_def)
  have w1: "window_sum ?arg1 (texel_value (\<lambda>h. 0) ?arg1) 0 0 0
              = Float4 (1 / 2) (1 / 2) (1 / 2) (1 / 16)"
    using c t1 by (simp add: window_sum_def tile_2d_def)
  have w2: "window_sum ?arg2 (texel_value (\<lambda>h. 0) ?arg2) 0 0 0
              = Float4 (1 / 4) (1 / 2) (1 / 2) (1 / 4)"
    using c t2 by (simp add: window_sum_def tile_2d_def)
  have a: "\<And>v. average_of ?arg1 v = v" "\<And>v. average_of ?arg2 v = v"
    by (simp_all add: average_of_def avg_var_rsamples_def avg_var_samples_def avg_var_kdim_def
        tile_2d_def splat_def times_float4_def)
  have r1: "map_option (\<lambda>r. input_averages (fst r) 0)
     (compute_pixel_region_variance (\<lambda>h. 0) ctx_zero ?arg1)
       = Some (Float4 (1 / 2) (1 / 2) (1 / 2) (1 / 16))"
    using region(1)[OF ok(1), of 0 0 0 ctx_zero] unfolding o w1 a
    by (simp add: tile_2d_def tile_in_image_def image_grey_pixel_def)
  have r2: "map_option (\<lambda>r. input_averages (fst r) 0)
     (compute_pixel_region_variance (\<lambda>h. 0) ctx_zero ?arg2)
       = Some (Float4 (1 / 4) (1 / 2) (1 / 2) (1 / 4))"
    using region(1)[OF ok(2), of 0 0 0 ctx_zero] unfolding o w2 a
    by (simp add: tile_2d_def tile_in_image_def image_grey_pixel_def)
  have s: "swap_channels Chan_R Chan_A (Float4 (1 / 2) (1 / 2) (1 / 2) (1 / 16))
     = Float4 (1 / 16) (1 / 2) (1 / 2) (1 / 2)"
    by (simp add: swap_channels_def exchange_def)
  show ?thesis using r1 r2 s by simp
qed

text \<open>
  C8, amended. For two channels that are both colour channels, or any two channels
  when \<open>rgb_power = alpha_power\<close>: whenever the run under a swizzle returns, the run
  under the swizzle with the selectors of the two channels exchanged returns too, and
  for every pixel of a tile inside the image its average and its variance are those
  of the first run with the two channels swapped and the others unchanged.
\<close>

theorem swizzle_exchange:
  assumes c: "i \<noteq> Chan_A \<and> j \<noteq> Chan_A \<or> rgb_power arg = alpha_power arg"
    and ok: "loads_ok sf arg"
    and r: "0 \<le> avg_var_kernel_radius arg" "0 \<le> alpha_kernel_radius arg"
    and ti: "tile_in_image arg"
    and z: "0 \<le> z" "z < size_z arg"
    and y: "0 \<le> y" "y < size_y arg" and x: "0 \<le> x" "x < size_x arg"
  shows "map_option (\<lambda>r. input_averages (fst r) (out_index arg z y x))
           (compute_pixel_region_variance sf ctx (arg\<lparr>swz := swap_selectors i j (swz arg)\<rparr>)) =
         map_option (\<lambda>r. swap_channels i j (input_averages (fst r) (out_index arg z y x)))
           (compute_pixel_region_variance sf ctx arg) \<and>
         map_option (\<lambda>r. input_variances (fst r) (out_index arg z y x))
           (compute_pixel_region_variance sf ctx (arg\<lparr>swz := swap_selectors i j (swz arg)\<rparr>)) =
         map_option (\<lambda>r. swap_channels i j (input_variances (fst r) (out_index arg z y x)))
           (compute_pixel_region_variance sf ctx arg)"
proof -
  define arg' where "arg' = arg\<lparr>swz := swap_selectors i j (swz arg)\<rparr>"
  have irr: "out_index arg' = out_index arg" "average_of arg' = average_of arg"
    "variance_of arg' = variance_of arg" "tile_in_image arg'"
    "\<And>S :: int \<Rightarrow> int \<Rightarrow> int \<Rightarrow> float4. window_sum arg' S z y x = window_sum arg S z y x"
    using ti by (simp_all add: arg'_def swz_irrelevant window_sum_swz)
  have tx: "\<And>zs ys xs. texel sf arg' zs ys xs = map_option (swap_channels i j) (texel sf arg zs ys xs)"
    unfolding arg'_def by (rule texel_swap[OF c])
  have ok': "loads_ok sf arg'"
    using ok unfolding loads_ok_def cell_def tx
    by (simp add: arg'_def swz_irrelevant)
  have f: "0 \<le> avg_var_kernel_radius arg'" "0 \<le> alpha_kernel_radius arg'"
    "0 \<le> z" "z < size_z arg'" "0 \<le> y" "y < size_y arg'" "0 \<le> x" "x < size_x arg'"
    using r z y x by (simp_all add: arg'_def)
  have tv: "texel_value sf arg' (clamp_z arg ((if have_z arg then z else 0) + offset_z arg + dz))
              (clamp_y arg (y + offset_y arg + dy)) (clamp_x arg (x + offset_x arg + dx)) =
            swap_channels i j (texel_value sf arg
              (clamp_z arg ((if have_z arg then z else 0) + offset_z arg + dz))
              (clamp_y arg (y + offset_y arg + dy)) (clamp_x arg (x + offset_x arg + dx)))"
    if "dz \<in> (if have_z arg then {- alpha_kernel_radius arg..alpha_kernel_radius arg} else {0})"
      "dy \<in> {- alpha_kernel_radius arg..alpha_kernel_radius arg}"
      "dx \<in> {- alpha_kernel_radius arg..alpha_kernel_radius arg}" for dz dy dx
    using window_loaded[OF ok r z y x that] by (auto simp: texel_value_def tx)
  have w1: "window_sum arg (texel_value sf arg') z y x =
            swap_channels i j (window_sum arg (texel_value sf arg) z y x)"
    unfolding window_sum_swap by (rule window_sum_cong) (rule tv)
  have w2: "window_sum arg (texel_square sf arg') z y x =
            swap_channels i j (window_sum arg (texel_square sf arg) z y x)"
    unfolding window_sum_swap
    by (rule window_sum_cong) (simp add: texel_square_def tv swap_channels_arith)
  have a: "\<And>v. average_of arg (swap_channels i j v) = swap_channels i j (average_of arg v)"
    by (simp add: average_of_def swap_channels_arith)
  have v: "\<And>u v. variance_of arg (swap_channels i j u) (swap_channels i j v) =
             swap_channels i j (variance_of arg u v)"
    by (simp add: variance_of_def swap_channels_arith)
  have A: "map_option (\<lambda>r. input_averages (fst r) (out_index arg z y x))
             (compute_pixel_region_variance sf ctx arg') =
           Some (swap_channels i j (average_of arg (window_sum arg (texel_value sf arg) z y x)))"
    using region(1)[OF ok' f(1,2) irr(4) f(3-8), of ctx] unfolding irr w1 a .
  have V: "map_option (\<lambda>r. input_variances (fst r) (out_index arg z y x))
             (compute_pixel_region_variance sf ctx arg') =
           Some (swap_channels i j (variance_of arg (window_sum arg (texel_value sf arg) z y x)
             (window_sum arg (texel_square sf arg) z y x)))"
    using region(2)[OF ok' f(1,2) irr(4) f(3-8), of ctx] unfolding irr w1 w2 v .
  have B: "map_option (\<lambda>r. swap_channels i j (input_averages (fst r) (out_index arg z y x)))
             (compute_pixel_region_variance sf ctx arg) =
           Some (swap_channels i j (average_of arg (window_sum arg (texel_value sf arg) z y x)))"
    using region(1)[OF ok r ti z y x, of ctx] by (auto simp: map_option_case split: option.splits)
  have W: "map_option (\<lambda>r. swap_channels i j (input_variances (fst r) (out_index arg z y x)))
             (compute_pixel_region_variance sf ctx arg) =
           Some (swap_channels i j (variance_of arg (window_sum arg (texel_value sf arg) z y x)
             (window_sum arg (texel_square sf arg) z y x)))"
    using region(2)[OF ok r ti z y x, of ctx] by (auto simp: map_option_case split: option.splits)
  show ?thesis by (simp only: arg'_def[symmetric] A V B W)
qed

text \<open>
  The pixel \<open>(1, 1)\<close> of the 2x2 ramp, exponents 2 and 3, both radii 1, red and blue
  exchanged.
\<close>

theorem swizzle_exchange_witness:
  "map_option (\<lambda>r. input_averages (fst r) 3)
     (compute_pixel_region_variance (\<lambda>h. 0) ctx_zero
        (tile_2d image_ramp_2x2 2 3 (swap_selectors Chan_R Chan_B identity_swz) 1 1 2 2)) =
   map_option (\<lambda>r. swap_channels Chan_R Chan_B (input_averages (fst r) 3))
     (compute_pixel_region_variance (\<lambda>h. 0) ctx_zero
        (tile_2d image_ramp_2x2 2 3 identity_swz 1 1 2 2)) \<and>
   map_option (\<lambda>r. input_variances (fst r) 3)
     (compute_pixel_region_variance (\<lambda>h. 0) ctx_zero
        (tile_2d image_ramp_2x2 2 3 (swap_selectors Chan_R Chan_B identity_swz) 1 1 2 2)) =
   map_option (\<lambda>r. swap_channels Chan_R Chan_B (input_variances (fst r) 3))
     (compute_pixel_region_variance (\<lambda>h. 0) ctx_zero
        (tile_2d image_ramp_2x2 2 3 identity_swz 1 1 2 2))"
proof -
  let ?arg = "tile_2d image_ramp_2x2 2 3 identity_swz 1 1 2 2"
  have ok: "loads_ok (\<lambda>h. 0) ?arg"
    by (rule loads_ok_unless_f32_volume) (simp add: tile_2d_def image_ramp_2x2_def)
  have o: "out_index ?arg 0 1 1 = 3"
    by (simp add: out_index_def out_index_2d_def tile_2d_def image_ramp_2x2_def ydt_def)
  have s: "?arg\<lparr>swz := swap_selectors Chan_R Chan_B (swz ?arg)\<rparr> =
           tile_2d image_ramp_2x2 2 3 (swap_selectors Chan_R Chan_B identity_swz) 1 1 2 2"
    by (simp add: tile_2d_def)
  show ?thesis
    using swizzle_exchange[OF _ ok, of Chan_R Chan_B 0 1 1 ctx_zero] unfolding o s
    by (simp add: tile_2d_def tile_in_image_def image_ramp_2x2_def)
qed

section \<open>Where a cell of the work buffer comes from\<close>

text \<open>
  When no assertion fails, the sampling loops leave in \<open>VARBUF1(z, y, x)\<close> the texel
  of the clamped source coordinate of the cell, and its square in \<open>VARBUF2(z, y, x)\<close>.
\<close>

lemma load_planes_at:
  assumes ok: "loads_ok sf arg"
    and c: "zd_start arg \<le> z" "z < padsize_z arg" "1 \<le> y" "y < padsize_y arg"
      "1 \<le> x" "x < padsize_x arg"
  shows "map_option (\<lambda>vb. fst vb (VARBUF arg z y x)) (load_planes sf arg vb0) = cell sf arg z y x"
    and "map_option (\<lambda>vb. snd vb (VARBUF arg z y x)) (load_planes sf arg vb0) =
           map_option (\<lambda>d. d * d) (cell sf arg z y x)"
proof -
  have "cell sf arg z y x \<noteq> None" using ok c by (simp add: loads_ok_def)
  then obtain d where d: "cell sf arg z y x = Some d" by auto
  show "map_option (\<lambda>vb. fst vb (VARBUF arg z y x)) (load_planes sf arg vb0) = cell sf arg z y x"
    and "map_option (\<lambda>vb. snd vb (VARBUF arg z y x)) (load_planes sf arg vb0) =
           map_option (\<lambda>d. d * d) (cell sf arg z y x)"
    using ok by (simp_all add: load_planes_eq load_pure_planes load_plane_at[OF c] d)
qed

text \<open>
  The 16-bit path reads the pixel at \<open>(x_src, y_src, z_src)\<close>; the 8-bit and the
  32-bit paths read the pixel at \<open>(x_src, y_src)\<close> of the first slice.
\<close>

lemma fetch_source_pixel:
  assumes "(case data (img arg) of ASTCENC_TYPE_F16 d \<Rightarrow> True | _ \<Rightarrow> False) \<or> z_src = 0"
    and sf: "sf 0 = 0" "sf 0x3C00 = 1"
  shows "fetch sf arg z_src y_src x_src =
           Some (swizzled (swz arg) (source_pixel sf (img arg) z_src y_src x_src))"
proof (cases "data (img arg)")
  case (ASTCENC_TYPE_U8 data8)
  then have z: "z_src = 0" using assms(1) by simp
  define px where "px = (y_src * int (dim_x (img arg)) + x_src) * 4"
  define r where "r = data8 ! nat (px + 0)"
  define g where "g = data8 ! nat (px + 1)"
  define b where "b = data8 ! nat (px + 2)"
  define a where "a = data8 ! nat (px + 3)"
  have cmp: "\<And>s. real (unat (swz_data r g b a 0 255 s)) * (1 / 255) =
             swz_data (real (unat r) / 255) (real (unat g) / 255) (real (unat b) / 255)
               (real (unat a) / 255) 0 1 s"
    subgoal for s by (cases s) simp_all
    done
  have F: "fetch sf arg z_src y_src x_src =
      Some (Float4 (real (unat (swz_data r g b a 0 255 (swz_r (swz arg)))))
                   (real (unat (swz_data r g b a 0 255 (swz_g (swz arg)))))
                   (real (unat (swz_data r g b a 0 255 (swz_b (swz arg)))))
                   (real (unat (swz_data r g b a 0 255 (swz_a (swz arg))))) * splat (1 / 255))"
    unfolding fetch_def ASTCENC_TYPE_U8 image_data.case fetch_u8_swizzled Let_def
      r_def g_def b_def a_def px_def ..
  have S: "source_pixel sf (img arg) z_src y_src x_src =
      Float4 (real (unat r) / 255) (real (unat g) / 255) (real (unat b) / 255)
        (real (unat a) / 255)"
    unfolding source_pixel_def ASTCENC_TYPE_U8 image_data.case Let_def z r_def g_def b_def a_def
      px_def by simp
  show ?thesis
    unfolding F S by (simp only: swizzled_def times_float4_def splat_def float4.sel cmp)
next
  case (ASTCENC_TYPE_F16 data16)
  have m: "\<And>r g b a s. sf (swz_data r g b a 0 0x3C00 s) =
             swz_data (sf r) (sf g) (sf b) (sf a) 0 1 s"
    subgoal for r g b a s using sf by (cases s) simp_all
    done
  show ?thesis
    by (simp add: fetch_def ASTCENC_TYPE_F16 fetch_f16_def source_pixel_def swizzled_def Let_def m)
next
  case (ASTCENC_TYPE_F32 data32)
  then have z: "z_src = 0" using assms(1) by simp
  show ?thesis
    by (simp add: fetch_def ASTCENC_TYPE_F32 fetch_f32_swizzled source_pixel_def swizzled_def
        Let_def z)
qed

text \<open>
  C5, as stated, fails. A volumetric 8-bit image of two slices of one pixel, black
  in slice 0 and white in slice 1, sampled with radius 0: the cell \<open>(z, y, x) = (2, 1, 1)\<close>
  of the work buffer has the clamped source coordinate \<open>(x_src, y_src, z_src) = (0, 0, 1)\<close>,
  whose pixel is white, and the loop stores black in it, the pixel at
  \<open>px = (y_src * dim_x + x_src) * 4\<close> of the flat buffer: \<open>z_src\<close> does not take part in
  the address.
\<close>

theorem u8_cell_ignores_z_counterexample:
  "src_z (tile_3d image_u8_two_slices 1 1 identity_swz 0 0 1 1 2) 2 = 1 \<and>
   src_y (tile_3d image_u8_two_slices 1 1 identity_swz 0 0 1 1 2) 1 = 0 \<and>
   src_x (tile_3d image_u8_two_slices 1 1 identity_swz 0 0 1 1 2) 1 = 0 \<and>
   source_pixel sf16_zero_one image_u8_two_slices 1 0 0 = Float4 1 1 1 1 \<and>
   map_option (\<lambda>vb. fst vb (VARBUF (tile_3d image_u8_two_slices 1 1 identity_swz 0 0 1 1 2) 2 1 1))
     (load_planes sf16_zero_one (tile_3d image_u8_two_slices 1 1 identity_swz 0 0 1 1 2)
        (work_memory (tile_3d image_u8_two_slices 1 1 identity_swz 0 0 1 1 2)))
     = Some (Float4 0 0 0 0)"
proof -
  let ?arg = "tile_3d image_u8_two_slices 1 1 identity_swz 0 0 1 1 2"
  have ok: "loads_ok sf16_zero_one ?arg"
    by (rule loads_ok_unless_f32_volume) (simp add: tile_3d_def image_u8_two_slices_def)
  have s: "src_z ?arg 2 = 1" "src_y ?arg 1 = 0" "src_x ?arg 1 = 0"
    by (simp_all add: src_z_def src_y_def src_x_def zd_start_def kernel_radius_z_def
        kernel_radius_xy_def kernel_radius_def astc_clamp_def tile_3d_def image_u8_two_slices_def)
  have p: "source_pixel sf16_zero_one image_u8_two_slices 1 0 0 = Float4 1 1 1 1"
    by (simp add: source_pixel_def image_u8_two_slices_def)
  have c: "cell sf16_zero_one ?arg 2 1 1 = Some (Float4 0 0 0 0)"
    unfolding cell_def s
    by (simp add: texel_def fetch_def fetch_u8_def power_curve_def are_powers_1_def Let_def
        tile_3d_def image_u8_two_slices_def identity_swz_def needs_swz_def times_float4_def
        splat_def)
  have "map_option (\<lambda>vb. fst vb (VARBUF ?arg 2 1 1))
          (load_planes sf16_zero_one ?arg (work_memory ?arg)) = Some (Float4 0 0 0 0)"
    unfolding c[symmetric]
    by (rule load_planes_at(1)[OF ok])
      (simp_all add: zd_start_def padsize_x_def padsize_y_def padsize_z_def kerneldim_def
        kernel_radius_def tile_3d_def)
  then show ?thesis using s p by simp
qed

text \<open>
  C5, amended. For 16-bit data, and for 8-bit and 32-bit data of an image with
  \<open>dim_z \<le> 1\<close>, the sampling loops return and every cell they fill holds the source
  pixel at the per-axis clamped coordinate \<open>(x_src, y_src, z_src)\<close> of the cell, decoded,
  swizzled and through the power block, and its square in the second plane. The
  decoder of half floats is a parameter that takes \<open>0\<close> to 0 and \<open>0x3C00\<close> to 1.
\<close>

theorem cell_filled_from_clamped_source_pixel:
  assumes fmt: "case data (img arg) of ASTCENC_TYPE_F16 d \<Rightarrow> True | _ \<Rightarrow> dim_z (img arg) \<le> 1"
    and sf: "sf 0 = 0" "sf 0x3C00 = 1"
    and c: "zd_start arg \<le> z" "z < padsize_z arg" "1 \<le> y" "y < padsize_y arg"
      "1 \<le> x" "x < padsize_x arg"
  shows "map_option (\<lambda>vb. fst vb (VARBUF arg z y x)) (load_planes sf arg vb0) =
           Some (power_curve arg (swizzled (swz arg)
                   (source_pixel sf (img arg) (src_z arg z) (src_y arg y) (src_x arg x)))) \<and>
         map_option (\<lambda>vb. snd vb (VARBUF arg z y x)) (load_planes sf arg vb0) =
           Some (power_curve arg (swizzled (swz arg)
                   (source_pixel sf (img arg) (src_z arg z) (src_y arg y) (src_x arg x))) *
                 power_curve arg (swizzled (swz arg)
                   (source_pixel sf (img arg) (src_z arg z) (src_y arg y) (src_x arg x))))"
proof -
  have ok: "loads_ok sf arg"
    using fmt by (intro loads_ok_unless_f32_volume) (simp split: image_data.splits)
  have "(case data (img arg) of ASTCENC_TYPE_F16 d \<Rightarrow> True | _ \<Rightarrow> False) \<or> src_z arg z = 0"
    using fmt by (auto simp: src_z_def astc_clamp_def split: image_data.splits)
  then have "cell sf arg z y x =
      Some (power_curve arg (swizzled (swz arg)
              (source_pixel sf (img arg) (src_z arg z) (src_y arg y) (src_x arg x))))"
    by (simp add: cell_def texel_def fetch_source_pixel[OF _ sf])
  then show ?thesis using load_planes_at[OF ok c, of vb0] by simp
qed

text \<open>
  The same two slices as 16-bit floats: the cell \<open>(2, 1, 1)\<close> holds the white pixel
  of slice 1.
\<close>

theorem cell_filled_from_clamped_source_pixel_witness:
  "map_option (\<lambda>vb. fst vb (VARBUF (tile_3d image_f16_two_slices 1 1 identity_swz 0 0 1 1 2) 2 1 1))
     (load_planes sf16_zero_one (tile_3d image_f16_two_slices 1 1 identity_swz 0 0 1 1 2)
        (work_memory (tile_3d image_f16_two_slices 1 1 identity_swz 0 0 1 1 2)))
     = Some (Float4 1 1 1 1) \<and>
   src_z (tile_3d image_f16_two_slices 1 1 identity_swz 0 0 1 1 2) 2 = 1"
proof -
  let ?arg = "tile_3d image_f16_two_slices 1 1 identity_swz 0 0 1 1 2"
  have s: "src_z ?arg 2 = 1" "src_y ?arg 1 = 0" "src_x ?arg 1 = 0"
    by (simp_all add: src_z_def src_y_def src_x_def zd_start_def kernel_radius_z_def
        kernel_radius_xy_def kernel_radius_def astc_clamp_def tile_3d_def image_f16_two_slices_def)
  have p: "power_curve ?arg (swizzled (swz ?arg) (source_pixel sf16_zero_one (img ?arg) 1 0 0))
             = Float4 1 1 1 1"
    by (simp add: power_curve_def are_powers_1_def swizzled_def source_pixel_def tile_3d_def
        image_f16_two_slices_def identity_swz_def sf16_zero_one_def)
  show ?thesis
    using cell_filled_from_clamped_source_pixel[of ?arg sf16_zero_one 2 1 1 "work_memory ?arg"]
    unfolding s p
    by (simp add: sf16_zero_one_def zd_start_def padsize_x_def padsize_y_def padsize_z_def
        kerneldim_def kernel_radius_def tile_3d_def image_f16_two_slices_def)
qed

section \<open>The tiles of a run\<close>

text \<open>
  C2 at a volumetric image of 17 slices of one pixel. The run has two units, for the
  slices 0 to 15 and for the slice 16. Unit 0 decodes to \<open>z = 0\<close>, \<open>y = 0\<close> and
  reaches the indices 0 to 15. Unit 1 decodes to \<open>z = (1 / 1) * 16 = 16\<close> and then to
  \<open>y = (1 - 16 * 1) * 16 = - 240\<close>, because \<open>z\<close> is already multiplied by \<open>step_z\<close>
  when it is taken off \<open>base\<close>; its tile has 16 rows from \<open>y = - 240\<close> on and reaches
  the indices - 224 to - 209. The index 16 is not reached by any unit.
\<close>

theorem volume_of_17_slices_units:
  "snd (init_compute_averages_and_variances image_17_slices 1 1 0 0 identity_swz) = 2 \<and>
   unit_z (fst (init_compute_averages_and_variances image_17_slices 1 1 0 0 identity_swz)) 0 = 0 \<and>
   unit_y (fst (init_compute_averages_and_variances image_17_slices 1 1 0 0 identity_swz)) 0 = 0 \<and>
   unit_z (fst (init_compute_averages_and_variances image_17_slices 1 1 0 0 identity_swz)) 1 = 16 \<and>
   unit_y (fst (init_compute_averages_and_variances image_17_slices 1 1 0 0 identity_swz)) 1
     = - 240 \<and>
   run_out_indices (fst (init_compute_averages_and_variances image_17_slices 1 1 0 0 identity_swz)) 2
     = [0, 1, 2, 3, 4, 5, 6, 7, 8, 9, 10, 11, 12, 13, 14, 15,
        - 224, - 223, - 222, - 221, - 220, - 219, - 218, - 217,
        - 216, - 215, - 214, - 213, - 212, - 211, - 210, - 209]"
  by code_simp

section \<open>The image value at radius zero\<close>

text \<open>
  C6, as stated, fails. On the volumetric 8-bit image of two slices of one pixel,
  black in slice 0 and white in slice 1, with both radii 0, both exponents 1 and the
  identity swizzle, the pixel \<open>(x, y, z) = (0, 0, 1)\<close> has the index 1 and the image
  value \<open>(1, 1, 1, 1)\<close>; the average written at index 1 is \<open>(0, 0, 0, 0)\<close>, the
  pixel of slice 0, which is what the 8-bit sampling loop reads for every slice.
\<close>

theorem zero_radius_u8_volume_counterexample:
  "swizzled identity_swz (source_pixel sf16_zero_one image_u8_two_slices 1 0 0)
     = Float4 1 1 1 1 \<and>
   out_index (tile_3d image_u8_two_slices 1 1 identity_swz 0 0 1 1 2) 1 0 0 = 1 \<and>
   map_option (\<lambda>r. input_averages (fst r) 1)
     (compute_pixel_region_variance sf16_zero_one ctx_zero
        (tile_3d image_u8_two_slices 1 1 identity_swz 0 0 1 1 2)) = Some (Float4 0 0 0 0)"
proof -
  let ?arg = "tile_3d image_u8_two_slices 1 1 identity_swz 0 0 1 1 2"
  have ok: "loads_ok sf16_zero_one ?arg"
    by (rule loads_ok_unless_f32_volume) (simp add: tile_3d_def image_u8_two_slices_def)
  have o: "out_index ?arg 1 0 0 = 1"
    by (simp add: out_index_def out_index_3d_def tile_3d_def image_u8_two_slices_def ydt_def
        zdt_def)
  have p: "swizzled identity_swz (source_pixel sf16_zero_one image_u8_two_slices 1 0 0)
             = Float4 1 1 1 1"
    by (simp add: swizzled_def identity_swz_def source_pixel_def image_u8_two_slices_def)
  have f: "fetch sf16_zero_one ?arg ((if have_z ?arg then 1 else 0) + offset_z ?arg)
             (0 + offset_y ?arg) (0 + offset_x ?arg) = Some (Float4 0 0 0 0)"
    by (simp add: fetch_def fetch_u8_def Let_def tile_3d_def image_u8_two_slices_def
        identity_swz_def needs_swz_def times_float4_def splat_def)
  have "map_option (\<lambda>r. input_averages (fst r) 1)
     (compute_pixel_region_variance sf16_zero_one ctx_zero ?arg) = Some (Float4 0 0 0 0)"
    using zero_radius_average_is_fetch[OF _ _ _ _ ok, of 1 0 0 ctx_zero] unfolding o f
    by (simp add: tile_3d_def tile_in_image_def image_u8_two_slices_def)
  then show ?thesis using o p by simp
qed

text \<open>
  C6, amended. With both radii 0 and both power exponents 1, for 16-bit data, and for
  8-bit and 32-bit data of an image with \<open>dim_z \<le> 1\<close>, the call returns and, for every
  pixel \<open>(x, y, z)\<close> of a tile inside the image, the average it writes at the pixel's
  index is the pixel of the image at that coordinate, decoded and swizzled, and the
  variance it writes is 0 in every channel. The decoder of half floats is a parameter
  that takes \<open>0\<close> to 0 and \<open>0x3C00\<close> to 1.
\<close>

theorem zero_radius_average_is_source_pixel:
  assumes r: "avg_var_kernel_radius arg = 0" "alpha_kernel_radius arg = 0"
    and p: "rgb_power arg = 1" "alpha_power arg = 1"
    and fmt: "case data (img arg) of ASTCENC_TYPE_F16 d \<Rightarrow> True | _ \<Rightarrow> dim_z (img arg) \<le> 1"
    and sf: "sf 0 = 0" "sf 0x3C00 = 1"
    and ti: "tile_in_image arg"
    and tz: "0 \<le> offset_z arg" "offset_z arg + size_z arg \<le> int (dim_z (img arg))"
    and z: "0 \<le> z" "z < size_z arg"
    and y: "0 \<le> y" "y < size_y arg" and x: "0 \<le> x" "x < size_x arg"
  shows "map_option (\<lambda>r. input_averages (fst r) (out_index arg z y x))
           (compute_pixel_region_variance sf ctx arg) =
         Some (swizzled (swz arg)
                 (source_pixel sf (img arg) ((if have_z arg then z else 0) + offset_z arg)
                    (y + offset_y arg) (x + offset_x arg))) \<and>
         map_option (\<lambda>r. input_variances (fst r) (out_index arg z y x))
           (compute_pixel_region_variance sf ctx arg) = Some 0"
proof -
  have ok: "loads_ok sf arg"
    using fmt by (intro loads_ok_unless_f32_volume) (simp split: image_data.splits)
  have "(case data (img arg) of ASTCENC_TYPE_F16 d \<Rightarrow> True | _ \<Rightarrow> False) \<or>
        (if have_z arg then z else 0) + offset_z arg = 0"
    using fmt tz z by (auto split: image_data.splits)
  then have "fetch sf arg ((if have_z arg then z else 0) + offset_z arg)
               (y + offset_y arg) (x + offset_x arg) =
             Some (swizzled (swz arg)
                 (source_pixel sf (img arg) ((if have_z arg then z else 0) + offset_z arg)
                    (y + offset_y arg) (x + offset_x arg)))"
    by (rule fetch_source_pixel) (rule sf)+
  then show ?thesis
    using zero_radius_average_is_fetch[OF r p ok ti tz z y x, of ctx] by simp
qed

text \<open>
  The pixel \<open>(1, 1)\<close> of the 2x2 image of 8-bit data: the bytes 51, 102, 153 and
  255 at index 3.
\<close>

theorem zero_radius_average_is_source_pixel_witness:
  "map_option (\<lambda>r. input_averages (fst r) 3)
     (compute_pixel_region_variance sf16_zero_one ctx_zero
        (tile_2d image_u8_2x2 1 1 identity_swz 0 0 2 2))
     = Some (Float4 (1 / 5) (2 / 5) (3 / 5) 1) \<and>
   map_option (\<lambda>r. input_variances (fst r) 3)
     (compute_pixel_region_variance sf16_zero_one ctx_zero
        (tile_2d image_u8_2x2 1 1 identity_swz 0 0 2 2)) = Some 0"
proof -
  let ?arg = "tile_2d image_u8_2x2 1 1 identity_swz 0 0 2 2"
  have o: "out_index ?arg 0 1 1 = 3"
    by (simp add: out_index_def out_index_2d_def tile_2d_def image_u8_2x2_def ydt_def)
  have s: "swizzled (swz ?arg)
             (source_pixel sf16_zero_one (img ?arg) ((if have_z ?arg then 0 else 0) + offset_z ?arg)
                (1 + offset_y ?arg) (1 + offset_x ?arg)) = Float4 (1 / 5) (2 / 5) (3 / 5) 1"
    by (simp add: swizzled_def source_pixel_def tile_2d_def image_u8_2x2_def identity_swz_def)
  show ?thesis
    using zero_radius_average_is_source_pixel[of ?arg sf16_zero_one 0 1 1 ctx_zero]
    unfolding o s
    by (simp add: sf16_zero_one_def tile_2d_def tile_in_image_def image_u8_2x2_def)
qed

section \<open>The power block\<close>

text \<open>
  When not both exponents are 1, the value sampled for a source coordinate is the
  fetched texel through \<open>pow(max(d, 1e-6), exponent)\<close> in every channel.
\<close>

lemma texel_value_floored:
  assumes one: "(rgb_power arg = 1) \<noteq> (alpha_power arg = 1)"
    and t: "texel sf arg zs ys xs \<noteq> None"
  shows "texel_value sf arg zs ys xs =
           Float4 (max (f4r (the (fetch sf arg zs ys xs))) (1 / 1000000) powr rgb_power arg)
                  (max (f4g (the (fetch sf arg zs ys xs))) (1 / 1000000) powr rgb_power arg)
                  (max (f4b (the (fetch sf arg zs ys xs))) (1 / 1000000) powr rgb_power arg)
                  (max (f4a (the (fetch sf arg zs ys xs))) (1 / 1000000) powr alpha_power arg)"
  using assms by (auto simp: texel_value_def texel_def power_curve_def are_powers_1_def)

text \<open>
  C10. When exactly one of \<open>rgb_power\<close> and \<open>alpha_power\<close> is 1 and no assertion
  fails, the power block still runs on all four channels. For every cell the sampling
  loops fill, with \<open>d\<close> the texel fetched at the clamped source coordinate of the cell,
  the loops return with \<open>pow(max(d, 1e-6), exponent)\<close> of every channel in
  \<open>VARBUF1(z, y, x)\<close> and its square in \<open>VARBUF2(z, y, x)\<close>; so a channel whose own
  exponent is 1 is stored as \<open>1e-6\<close> whenever the fetched value is below \<open>1e-6\<close>.
  These are the values that are accumulated: for every pixel of a tile inside the
  image, the average and the alpha average the call writes are computed from the sum,
  over the window of the pixel, of the fetched texels through
  \<open>pow(max(d, 1e-6), exponent)\<close>.
\<close>

theorem power_block_runs_unless_both_powers_are_1:
  assumes one: "(rgb_power arg = 1) \<noteq> (alpha_power arg = 1)"
    and ok: "loads_ok sf arg"
    and c: "zd_start arg \<le> z" "z < padsize_z arg" "1 \<le> y" "y < padsize_y arg"
      "1 \<le> x" "x < padsize_x arg"
    and f: "fetch sf arg (src_z arg z) (src_y arg y) (src_x arg x) = Some d"
    and r: "0 \<le> avg_var_kernel_radius arg" "0 \<le> alpha_kernel_radius arg"
    and ti: "tile_in_image arg"
    and pz: "0 \<le> pz" "pz < size_z arg"
    and py: "0 \<le> py" "py < size_y arg" and px: "0 \<le> px" "px < size_x arg"
  shows "map_option (\<lambda>vb. fst vb (VARBUF arg z y x)) (load_planes sf arg vb0) =
           Some (Float4 (max (f4r d) (1 / 1000000) powr rgb_power arg)
                        (max (f4g d) (1 / 1000000) powr rgb_power arg)
                        (max (f4b d) (1 / 1000000) powr rgb_power arg)
                        (max (f4a d) (1 / 1000000) powr alpha_power arg)) \<and>
         map_option (\<lambda>vb. snd vb (VARBUF arg z y x)) (load_planes sf arg vb0) =
           Some (Float4 (max (f4r d) (1 / 1000000) powr rgb_power arg)
                        (max (f4g d) (1 / 1000000) powr rgb_power arg)
                        (max (f4b d) (1 / 1000000) powr rgb_power arg)
                        (max (f4a d) (1 / 1000000) powr alpha_power arg) *
                 Float4 (max (f4r d) (1 / 1000000) powr rgb_power arg)
                        (max (f4g d) (1 / 1000000) powr rgb_power arg)
                        (max (f4b d) (1 / 1000000) powr rgb_power arg)
                        (max (f4a d) (1 / 1000000) powr alpha_power arg)) \<and>
         (rgb_power arg = 1 \<and> f4r d < 1 / 1000000 \<longrightarrow>
            map_option (\<lambda>vb. f4r (fst vb (VARBUF arg z y x))) (load_planes sf arg vb0)
              = Some (1 / 1000000)) \<and>
         (rgb_power arg = 1 \<and> f4g d < 1 / 1000000 \<longrightarrow>
            map_option (\<lambda>vb. f4g (fst vb (VARBUF arg z y x))) (load_planes sf arg vb0)
              = Some (1 / 1000000)) \<and>
         (rgb_power arg = 1 \<and> f4b d < 1 / 1000000 \<longrightarrow>
            map_option (\<lambda>vb. f4b (fst vb (VARBUF arg z y x))) (load_planes sf arg vb0)
              = Some (1 / 1000000)) \<and>
         (alpha_power arg = 1 \<and> f4a d < 1 / 1000000 \<longrightarrow>
            map_option (\<lambda>vb. f4a (fst vb (VARBUF arg z y x))) (load_planes sf arg vb0)
              = Some (1 / 1000000)) \<and>
         map_option (\<lambda>r. input_averages (fst r) (out_index arg pz py px))
           (compute_pixel_region_variance sf ctx arg) =
         Some (average_of arg (window_sum arg (\<lambda>zs ys xs.
           Float4 (max (f4r (the (fetch sf arg zs ys xs))) (1 / 1000000) powr rgb_power arg)
                  (max (f4g (the (fetch sf arg zs ys xs))) (1 / 1000000) powr rgb_power arg)
                  (max (f4b (the (fetch sf arg zs ys xs))) (1 / 1000000) powr rgb_power arg)
                  (max (f4a (the (fetch sf arg zs ys xs))) (1 / 1000000) powr alpha_power arg))
           pz py px)) \<and>
         map_option (\<lambda>r. input_alpha_averages (fst r) (out_index arg pz py px))
           (compute_pixel_region_variance sf ctx arg) =
         Some (f4a (window_sum arg (\<lambda>zs ys xs.
           Float4 (max (f4r (the (fetch sf arg zs ys xs))) (1 / 1000000) powr rgb_power arg)
                  (max (f4g (the (fetch sf arg zs ys xs))) (1 / 1000000) powr rgb_power arg)
                  (max (f4b (the (fetch sf arg zs ys xs))) (1 / 1000000) powr rgb_power arg)
                  (max (f4a (the (fetch sf arg zs ys xs))) (1 / 1000000) powr alpha_power arg))
           pz py px) * alpha_rsamples arg)"
proof -
  define v where "v = Float4 (max (f4r d) (1 / 1000000) powr rgb_power arg)
                        (max (f4g d) (1 / 1000000) powr rgb_power arg)
                        (max (f4b d) (1 / 1000000) powr rgb_power arg)
                        (max (f4a d) (1 / 1000000) powr alpha_power arg)"
  have cv: "cell sf arg z y x = Some v"
    using one f by (auto simp: cell_def texel_def power_curve_def are_powers_1_def v_def)
  have s1: "map_option (\<lambda>vb. fst vb (VARBUF arg z y x)) (load_planes sf arg vb0) = Some v"
    using load_planes_at(1)[OF ok c, of vb0] cv by simp
  have s2: "map_option (\<lambda>vb. snd vb (VARBUF arg z y x)) (load_planes sf arg vb0) = Some (v * v)"
    using load_planes_at(2)[OF ok c, of vb0] cv by simp
  have ch: "\<And>g. map_option (\<lambda>vb. g (fst vb (VARBUF arg z y x))) (load_planes sf arg vb0)
              = Some (g v)"
    using s1 by (cases "load_planes sf arg vb0") auto
  have fl: "rgb_power arg = 1 \<and> f4r d < 1 / 1000000 \<longrightarrow> f4r v = 1 / 1000000"
    "rgb_power arg = 1 \<and> f4g d < 1 / 1000000 \<longrightarrow> f4g v = 1 / 1000000"
    "rgb_power arg = 1 \<and> f4b d < 1 / 1000000 \<longrightarrow> f4b v = 1 / 1000000"
    "alpha_power arg = 1 \<and> f4a d < 1 / 1000000 \<longrightarrow> f4a v = 1 / 1000000"
    by (auto simp: v_def max_def)
  have F: "rgb_power arg = 1 \<and> f4r d < 1 / 1000000 \<longrightarrow>
             map_option (\<lambda>vb. f4r (fst vb (VARBUF arg z y x))) (load_planes sf arg vb0)
               = Some (1 / 1000000)"
    "rgb_power arg = 1 \<and> f4g d < 1 / 1000000 \<longrightarrow>
             map_option (\<lambda>vb. f4g (fst vb (VARBUF arg z y x))) (load_planes sf arg vb0)
               = Some (1 / 1000000)"
    "rgb_power arg = 1 \<and> f4b d < 1 / 1000000 \<longrightarrow>
             map_option (\<lambda>vb. f4b (fst vb (VARBUF arg z y x))) (load_planes sf arg vb0)
               = Some (1 / 1000000)"
    "alpha_power arg = 1 \<and> f4a d < 1 / 1000000 \<longrightarrow>
             map_option (\<lambda>vb. f4a (fst vb (VARBUF arg z y x))) (load_planes sf arg vb0)
               = Some (1 / 1000000)"
    unfolding ch using fl by simp_all
  have w: "window_sum arg (texel_value sf arg) pz py px =
           window_sum arg (\<lambda>zs ys xs.
             Float4 (max (f4r (the (fetch sf arg zs ys xs))) (1 / 1000000) powr rgb_power arg)
                    (max (f4g (the (fetch sf arg zs ys xs))) (1 / 1000000) powr rgb_power arg)
                    (max (f4b (the (fetch sf arg zs ys xs))) (1 / 1000000) powr rgb_power arg)
                    (max (f4a (the (fetch sf arg zs ys xs))) (1 / 1000000) powr alpha_power arg))
             pz py px"
    by (rule window_sum_cong, rule texel_value_floored[OF one],
        rule window_loaded[OF ok r pz py px])
  note A = region(1,3)[OF ok r ti pz py px, of ctx, unfolded w]
  show ?thesis
    unfolding v_def[symmetric]
    by (intro conjI) (rule s1 s2 F A)+
qed

text \<open>
  With \<open>rgb_power = 1\<close> and \<open>alpha_power = 2\<close>, the pixel \<open>(0, 1/2, 1/2, 1/4)\<close> is
  stored, and averaged at radius 0, as \<open>(1e-6, 1/2, 1/2, 1/16)\<close>.
\<close>

theorem power_block_runs_unless_both_powers_are_1_witness:
  "fetch (\<lambda>h. 0) (tile_2d image_dark_red 1 2 identity_swz 0 0 1 1) 0 0 0
     = Some (Float4 0 (1 / 2) (1 / 2) (1 / 4)) \<and>
   map_option (\<lambda>vb. fst vb (VARBUF (tile_2d image_dark_red 1 2 identity_swz 0 0 1 1) 0 1 1))
     (load_planes (\<lambda>h. 0) (tile_2d image_dark_red 1 2 identity_swz 0 0 1 1)
        (work_memory (tile_2d image_dark_red 1 2 identity_swz 0 0 1 1)))
     = Some (Float4 (1 / 1000000) (1 / 2) (1 / 2) (1 / 16)) \<and>
   map_option (\<lambda>r. input_averages (fst r) 0)
     (compute_pixel_region_variance (\<lambda>h. 0) ctx_zero
        (tile_2d image_dark_red 1 2 identity_swz 0 0 1 1))
     = Some (Float4 (1 / 1000000) (1 / 2) (1 / 2) (1 / 16))"
proof -
  let ?arg = "tile_2d image_dark_red 1 2 identity_swz 0 0 1 1"
  have ok: "loads_ok (\<lambda>h. 0) ?arg"
    by (rule loads_ok_unless_f32_volume) (simp add: tile_2d_def image_dark_red_def)
  have o: "out_index ?arg 0 0 0 = 0"
    by (simp add: out_index_def out_index_2d_def tile_2d_def image_dark_red_def ydt_def)
  have s: "src_z ?arg 0 = 0" "src_y ?arg 1 = 0" "src_x ?arg 1 = 0"
    by (simp_all add: src_z_def src_y_def src_x_def zd_start_def kernel_radius_z_def
        kernel_radius_xy_def kernel_radius_def astc_clamp_def tile_2d_def image_dark_red_def)
  have f: "fetch (\<lambda>h. 0) ?arg 0 0 0 = Some (Float4 0 (1 / 2) (1 / 2) (1 / 4))"
    by (simp add: fetch_def fetch_f32_def tile_2d_def image_dark_red_def identity_swz_def
        needs_swz_def)
  have f': "fetch (\<lambda>h. 0) ?arg (src_z ?arg 0) (src_y ?arg 1) (src_x ?arg 1)
              = Some (Float4 0 (1 / 2) (1 / 2) (1 / 4))"
    unfolding s by (rule f)
  have p: "(rgb_power ?arg = 1) \<noteq> (alpha_power ?arg = 1)"
    by (simp add: tile_2d_def)
  have h: "max (1 / 4) (1 / 1000000 :: real) powr alpha_power ?arg = 1 / 16"
    "max 0 (1 / 1000000 :: real) powr rgb_power ?arg = 1 / 1000000"
    "max (1 / 2) (1 / 1000000 :: real) powr rgb_power ?arg = 1 / 2"
    by (simp_all add: tile_2d_def power2_eq_square)
  have c: "clamp_x ?arg 0 = 0" "clamp_y ?arg 0 = 0" "clamp_z ?arg 0 = 0"
    by (simp_all add: clamp_x_def clamp_y_def clamp_z_def astc_clamp_def tile_2d_def
        image_dark_red_def)
  have w: "\<And>S :: int \<Rightarrow> int \<Rightarrow> int \<Rightarrow> float4. window_sum ?arg S 0 0 0 = S 0 0 0"
    using c by (simp add: window_sum_def tile_2d_def)
  have a: "\<And>v. average_of ?arg v = v"
    by (simp add: average_of_def avg_var_rsamples_def avg_var_samples_def avg_var_kdim_def
        tile_2d_def splat_def times_float4_def)
  have g: "0 \<le> avg_var_kernel_radius ?arg" "0 \<le> alpha_kernel_radius ?arg"
    "tile_in_image ?arg" "0 \<le> (0 :: int)" "0 < size_z ?arg" "0 < size_y ?arg" "0 < size_x ?arg"
    "zd_start ?arg \<le> 0" "0 < padsize_z ?arg" "1 \<le> (1 :: int)" "1 < padsize_y ?arg"
    "1 < padsize_x ?arg"
    by (simp_all add: tile_2d_def tile_in_image_def image_dark_red_def zd_start_def
        padsize_x_def padsize_y_def padsize_z_def kerneldim_def kernel_radius_def)
  show ?thesis
    using power_block_runs_unless_both_powers_are_1[OF p ok g(8,9,10,11,10,12) f' g(1,2,3,4,5,4,6,4,7),
        of "work_memory ?arg" ctx_zero]
    unfolding o w a f option.sel float4.sel h
    using f by simp
qed

end
